theory Spec2Isabelle
  imports Main "HOL-Library.Multiset" "HOL-Library.Sublist"
begin

section \<open>Package parallel: data model\<close>

text \<open>
  Go's \<^verbatim>\<open>error\<close> interface value is modelled as \<open>'e option\<close>, with \<open>None\<close> for
  \<^verbatim>\<open>nil\<close>. A \<^verbatim>\<open>Func\<close> takes its index and returns an error.
\<close>

type_synonym 'e Func = "int \<Rightarrow> 'e option"

datatype panic = NewSemaphore_max_lt_1 int | Negative_WaitGroup_counter

subsection \<open>Semaphore\<close>

text \<open>
  \<^verbatim>\<open>type Semaphore chan struct{}\<close>: a buffered channel of empty structs. Its state is
  the buffer capacity fixed by \<^verbatim>\<open>make\<close> and the number of elements queued in the
  buffer. A send blocks while the buffer is full, a receive blocks while it is empty; a
  blocked operation is the value \<open>None\<close>.
\<close>

record Semaphore =
  capacity :: nat
  queued :: nat

definition chan_send :: "Semaphore \<Rightarrow> Semaphore option" where
  "chan_send s = (if queued s < capacity s then Some (s\<lparr>queued := queued s + 1\<rparr>) else None)"

definition chan_recv :: "Semaphore \<Rightarrow> Semaphore option" where
  "chan_recv s = (if 0 < queued s then Some (s\<lparr>queued := queued s - 1\<rparr>) else None)"

text \<open>The tokens still available: free slots of the buffer.\<close>

definition available :: "Semaphore \<Rightarrow> int" where
  "available s = int (capacity s) - int (queued s)"

definition NewSemaphore :: "int \<Rightarrow> panic + Semaphore" where
  "NewSemaphore mx =
     (if mx < 1 then Inl (NewSemaphore_max_lt_1 mx)
      else Inr \<lparr>capacity = nat mx, queued = 0\<rparr>)"

definition Acquire :: "Semaphore \<Rightarrow> Semaphore option" where
  "Acquire s = chan_send s"

definition Release :: "Semaphore \<Rightarrow> Semaphore option" where
  "Release s = chan_recv s"

text \<open>
  The release actions handed out: the method value \<^verbatim>\<open>s.Release\<close> or the function
  \<^verbatim>\<open>noop\<close>.
\<close>

datatype release = Release_of_s | noop

fun invoke :: "release \<Rightarrow> Semaphore \<Rightarrow> Semaphore option" where
  "invoke Release_of_s s = Release s"
| "invoke noop s = Some s"

definition AcquireRelease :: "Semaphore \<Rightarrow> (release \<times> Semaphore) option" where
  "AcquireRelease s =
     (case chan_send s of None \<Rightarrow> None | Some s' \<Rightarrow> Some (Release_of_s, s'))"

text \<open>
  \<^verbatim>\<open>select\<close> with a \<^verbatim>\<open>default\<close> case: the send happens when it can, otherwise the
  default branch runs. The function is total: it has a result in every state.
\<close>

definition MaybeAcquire :: "Semaphore \<Rightarrow> bool \<times> release \<times> Semaphore" where
  "MaybeAcquire s =
     (case chan_send s of
        Some s' \<Rightarrow> (True, Release_of_s, s')
      | None \<Rightarrow> (False, noop, s))"

text \<open>
  Sequences of semaphore operations, as they complete one after the other on the shared
  channel, whichever caller issues them. \<open>Invoke r\<close> is a call of a release action got
  from \<^verbatim>\<open>AcquireRelease\<close> or \<^verbatim>\<open>MaybeAcquire\<close>.
\<close>

datatype sem_op = Op_Acquire | Op_Release | Op_AcquireRelease | Op_MaybeAcquire | Op_Invoke release

fun sem_apply :: "sem_op \<Rightarrow> Semaphore \<Rightarrow> Semaphore option" where
  "sem_apply Op_Acquire s = Acquire s"
| "sem_apply Op_Release s = Release s"
| "sem_apply Op_AcquireRelease s = map_option snd (AcquireRelease s)"
| "sem_apply Op_MaybeAcquire s = Some (snd (snd (MaybeAcquire s)))"
| "sem_apply (Op_Invoke r) s = invoke r s"

fun sem_ops :: "sem_op list \<Rightarrow> Semaphore \<Rightarrow> Semaphore option" where
  "sem_ops [] s = Some s"
| "sem_ops (x # xs) s = (case sem_apply x s of None \<Rightarrow> None | Some s' \<Rightarrow> sem_ops xs s')"

subsection \<open>Errors\<close>

text \<open>
  \<^verbatim>\<open>Errors\<close> holds one pointer \<^verbatim>\<open>errs *[]error\<close>. The slices it may point to live in a
  store: the list of the slices allocated so far, a pointer being a position in it and
  \<^verbatim>\<open>nil\<close> being \<open>None\<close>. An allocation appends a slice; no slice is written after
  its allocation. A slice of \<^verbatim>\<open>error\<close> may hold \<^verbatim>\<open>nil\<close>, so its elements are options.
\<close>

type_synonym 'e store = "'e option list list"

text \<open>
  Modelled from the spec: the external multi-error-combination collaborator
  (\<^verbatim>\<open>multierr.Combine\<close>, not part of this repository) takes a sequence of errors and gives
  one combined error, or none when nothing is left after skipping \<^verbatim>\<open>nil\<close>. The combined
  error is represented by the list of the errors it holds.
\<close>

definition Combine :: "'e option list \<Rightarrow> 'e list option" where
  "Combine xs =
     (let ys = map the (filter (\<lambda>x. x \<noteq> None) xs) in if ys = [] then None else Some ys)"

definition Err :: "'e store \<Rightarrow> nat option \<Rightarrow> 'e list option" where
  "Err st p = (case p of None \<Rightarrow> None | Some a \<Rightarrow> Combine (st ! a))"

definition List :: "'e store \<Rightarrow> nat option \<Rightarrow> 'e option list" where
  "List st p = (case p of None \<Rightarrow> [] | Some a \<Rightarrow> st ! a)"

subsection \<open>The dispatcher: Func.Do and Funcs.Do\<close>

text \<open>
  A call of \<^verbatim>\<open>fn.Do(count, maxParallel...)\<close> or of \<^verbatim>\<open>fns.Do(maxParallel...)\<close>.
\<close>

datatype 'e call = Func_Do "'e Func" int "int list" | Funcs_Do "'e Func list" "int list"

text \<open>Which function a goroutine runs: \<^verbatim>\<open>fn.doOne\<close> or \<^verbatim>\<open>doOp\<close>.\<close>

datatype kind = DoOne | DoOp

text \<open>
  The places of a goroutine in \<^verbatim>\<open>doOne\<close> or \<^verbatim>\<open>doOp\<close>, one for each action that
  touches shared state or the task:
  \<^item> \<open>PAcquire\<close>: \<^verbatim>\<open>doOp\<close> is about to evaluate \<^verbatim>\<open>sema.AcquireRelease()\<close> of its
    \<^verbatim>\<open>defer sema.AcquireRelease()()\<close>;
  \<^item> \<open>PCall\<close>: about to call \<^verbatim>\<open>fn(i)\<close>; \<open>PInTask\<close>: the task body is executing;
  \<^item> \<open>PAdd\<close>: entering \<^verbatim>\<open>errs.Add(err)\<close>; \<open>PAddLoad\<close>: at the label \<^verbatim>\<open>retry\<close>;
    \<open>PAddCAS\<close>: before the second compare-and-swap;
  \<^item> \<open>PRelease\<close>: \<^verbatim>\<open>doOp\<close> runs the deferred release function;
  \<^item> \<open>PDeferAcquire\<close>: \<^verbatim>\<open>doOne\<close> runs its deferred call \<^verbatim>\<open>sema.AcquireRelease()\<close>;
  \<^item> \<open>PDone\<close>: the deferred \<^verbatim>\<open>wg.Done()\<close>; \<open>PExit\<close>: the goroutine has ended.
\<close>

datatype gpc = PAcquire | PCall | PInTask | PAdd | PAddLoad | PAddCAS
  | PRelease | PDeferAcquire | PDone | PExit

record 'e goroutine =
  kind :: kind
  idx :: int
  task :: "'e Func"
  gpc :: gpc
  err :: "'e option"
  current :: nat
  newVal :: nat

text \<open>The places of the caller: in the spawning loop at index \<open>i\<close>, in \<^verbatim>\<open>wg.Wait()\<close>, returned.\<close>

datatype 'e mpc = MLoop int | MWait | MReturned "'e list option"

text \<open>
  What has happened so far, for stating what was done and in which order: goroutine
  number \<open>k\<close> acquired the semaphore, called its task with an index, got the task's
  result, stored its error, released the semaphore, called \<^verbatim>\<open>wg.Done()\<close>. The log is
  only written, never read, by the steps.
\<close>

datatype event = Acquired nat | Invoked nat int | Returned nat | Recorded nat
  | Released nat | Signaled nat

fun unit_of :: "event \<Rightarrow> nat" where
  "unit_of (Acquired k) = k"
| "unit_of (Invoked k i) = k"
| "unit_of (Returned k) = k"
| "unit_of (Recorded k) = k"
| "unit_of (Released k) = k"
| "unit_of (Signaled k) = k"

record 'e state =
  wg :: int
  sema :: Semaphore
  heap :: "'e store"
  errs :: "nat option"
  gs :: "'e goroutine list"
  mpc :: "'e mpc"
  trace :: "event list"

text \<open>
  \<^verbatim>\<open>max := maxproc; if len(maxParallel) != 0 && maxParallel[0] > 0 { max = maxParallel[0] }\<close>,
  the same in both \<^verbatim>\<open>Do\<close>. \<^verbatim>\<open>maxproc\<close> is \<^verbatim>\<open>runtime.GOMAXPROCS(0)\<close>, a parameter here.
\<close>

definition max_parallel :: "int \<Rightarrow> int list \<Rightarrow> int" where
  "max_parallel maxproc maxParallel =
     (if length maxParallel \<noteq> 0 \<and> maxParallel ! 0 > 0 then maxParallel ! 0 else maxproc)"

definition returned_nil :: "'e state" where
  "returned_nil = \<lparr>wg = 0, sema = \<lparr>capacity = 0, queued = 0\<rparr>, heap = [], errs = None,
     gs = [], mpc = MReturned None, trace = []\<rparr>"

definition spawning :: "int \<Rightarrow> Semaphore \<Rightarrow> 'e state" where
  "spawning n sem = \<lparr>wg = n, sema = sem, heap = [], errs = None,
     gs = [], mpc = MLoop 0, trace = []\<rparr>"

text \<open>
  \<^verbatim>\<open>Func.Do\<close> up to its loop: the early return for \<^verbatim>\<open>count == 0\<close>, \<^verbatim>\<open>wg.Add(count)\<close>
  (which panics on a negative counter), \<^verbatim>\<open>NewSemaphore(max)\<close>.
\<close>

definition Func_Do_start :: "int \<Rightarrow> int \<Rightarrow> int list \<Rightarrow> panic + 'e state" where
  "Func_Do_start maxproc cnt maxParallel =
     (if cnt = 0 then Inr returned_nil
      else if cnt < 0 then Inl Negative_WaitGroup_counter
      else case NewSemaphore (max_parallel maxproc maxParallel) of
             Inl p \<Rightarrow> Inl p
           | Inr sem \<Rightarrow> Inr (spawning cnt sem))"

definition Funcs_Do_start :: "int \<Rightarrow> 'e Func list \<Rightarrow> int list \<Rightarrow> panic + 'e state" where
  "Funcs_Do_start maxproc fns maxParallel =
     (if length fns = 0 then Inr returned_nil
      else case NewSemaphore (max_parallel maxproc maxParallel) of
             Inl p \<Rightarrow> Inl p
           | Inr sem \<Rightarrow> Inr (spawning (int (length fns)) sem))"

fun start :: "int \<Rightarrow> 'e call \<Rightarrow> panic + 'e state" where
  "start maxproc (Func_Do fn cnt maxParallel) = Func_Do_start maxproc cnt maxParallel"
| "start maxproc (Funcs_Do fns maxParallel) = Funcs_Do_start maxproc fns maxParallel"

text \<open>The number of units of work, and the goroutine started for index \<open>i\<close>.\<close>

fun units :: "'e call \<Rightarrow> int" where
  "units (Func_Do fn cnt maxParallel) = cnt"
| "units (Funcs_Do fns maxParallel) = int (length fns)"

fun spawn :: "'e call \<Rightarrow> int \<Rightarrow> 'e goroutine" where
  "spawn (Func_Do fn cnt maxParallel) i =
     \<lparr>kind = DoOne, idx = i, task = fn, gpc = PCall, err = None, current = 0, newVal = 0\<rparr>"
| "spawn (Funcs_Do fns maxParallel) i =
     \<lparr>kind = DoOp, idx = i, task = fns ! nat i, gpc = PAcquire, err = None, current = 0,
      newVal = 0\<rparr>"

text \<open>
  Where a goroutine goes when \<^verbatim>\<open>errs.Add\<close> returns: \<^verbatim>\<open>doOp\<close> deferred the release
  function that \<^verbatim>\<open>sema.AcquireRelease()\<close> returned, \<^verbatim>\<open>doOne\<close> deferred the call
  \<^verbatim>\<open>sema.AcquireRelease()\<close> itself.
\<close>

fun after_Add :: "kind \<Rightarrow> gpc" where
  "after_Add DoOp = PRelease"
| "after_Add DoOne = PDeferAcquire"

definition at :: "nat \<Rightarrow> 'e goroutine \<Rightarrow> 'e state \<Rightarrow> 'e state" where
  "at k g s = s\<lparr>gs := (gs s)[k := g]\<rparr>"

definition emit :: "event \<Rightarrow> 'e state \<Rightarrow> 'e state" where
  "emit e s = s\<lparr>trace := trace s @ [e]\<rparr>"

text \<open>
  One step of goroutine number \<open>k\<close>, whose local state is \<open>g\<close>. \<open>None\<close>: the goroutine
  is blocked, or has ended.
\<close>

definition gstep :: "nat \<Rightarrow> 'e goroutine \<Rightarrow> 'e state \<Rightarrow> 'e state option" where
  "gstep k g s =
     (case gpc g of
        PAcquire \<Rightarrow>
          (case AcquireRelease (sema s) of
             None \<Rightarrow> None
           | Some (r, c) \<Rightarrow> Some (emit (Acquired k) (at k (g\<lparr>gpc := PCall\<rparr>) (s\<lparr>sema := c\<rparr>))))
      | PCall \<Rightarrow> Some (emit (Invoked k (idx g)) (at k (g\<lparr>gpc := PInTask\<rparr>) s))
      | PInTask \<Rightarrow>
          Some (emit (Returned k) (at k (g\<lparr>gpc := PAdd, err := task g (idx g)\<rparr>) s))
      | PAdd \<Rightarrow>
          (if err g = None then Some (at k (g\<lparr>gpc := after_Add (kind g)\<rparr>) s)
           else Some (at k (g\<lparr>gpc := PAddLoad\<rparr>)
                  (s\<lparr>heap := heap s @ [[]],
                     errs := (if errs s = None then Some (length (heap s)) else errs s)\<rparr>)))
      | PAddLoad \<Rightarrow>
          (case errs s of
             None \<Rightarrow> None
           | Some a \<Rightarrow>
               Some (at k (g\<lparr>gpc := PAddCAS, current := a, newVal := length (heap s)\<rparr>)
                  (s\<lparr>heap := heap s @ [err g # heap s ! a]\<rparr>)))
      | PAddCAS \<Rightarrow>
          (if errs s = Some (current g)
           then Some (emit (Recorded k)
                  (at k (g\<lparr>gpc := after_Add (kind g)\<rparr>) (s\<lparr>errs := Some (newVal g)\<rparr>)))
           else Some (at k (g\<lparr>gpc := PAddLoad\<rparr>) s))
      | PRelease \<Rightarrow>
          (case invoke Release_of_s (sema s) of
             None \<Rightarrow> None
           | Some c \<Rightarrow> Some (emit (Released k) (at k (g\<lparr>gpc := PDone\<rparr>) (s\<lparr>sema := c\<rparr>))))
      | PDeferAcquire \<Rightarrow>
          (case AcquireRelease (sema s) of
             None \<Rightarrow> None
           | Some (r, c) \<Rightarrow> Some (emit (Acquired k) (at k (g\<lparr>gpc := PDone\<rparr>) (s\<lparr>sema := c\<rparr>))))
      | PDone \<Rightarrow> Some (emit (Signaled k) (at k (g\<lparr>gpc := PExit\<rparr>) (s\<lparr>wg := wg s - 1\<rparr>)))
      | PExit \<Rightarrow> None)"

text \<open>
  One step of the caller: the loop starts the next goroutine or ends, \<^verbatim>\<open>wg.Wait()\<close>
  returns once the counter is zero, and then \<^verbatim>\<open>errs.Err()\<close> is returned.
\<close>

definition mstep :: "'e call \<Rightarrow> 'e state \<Rightarrow> 'e state option" where
  "mstep c s =
     (case mpc s of
        MLoop i \<Rightarrow>
          (if i < units c then Some (s\<lparr>gs := gs s @ [spawn c i], mpc := MLoop (i + 1)\<rparr>)
           else Some (s\<lparr>mpc := MWait\<rparr>))
      | MWait \<Rightarrow>
          (if wg s = 0 then Some (s\<lparr>mpc := MReturned (Err (heap s) (errs s))\<rparr>) else None)
      | MReturned r \<Rightarrow> None)"

text \<open>Threads, and runs under a schedule: the list of the threads that step, in order.\<close>

datatype tid = Main | G nat

fun step :: "'e call \<Rightarrow> tid \<Rightarrow> 'e state \<Rightarrow> 'e state option" where
  "step c Main s = mstep c s"
| "step c (G k) s = (if k < length (gs s) then gstep k (gs s ! k) s else None)"

fun run :: "'e call \<Rightarrow> tid list \<Rightarrow> 'e state \<Rightarrow> 'e state option" where
  "run c [] s = Some s"
| "run c (t # ts) s = (case step c t s of None \<Rightarrow> None | Some s' \<Rightarrow> run c ts s')"

text \<open>A state in which no thread can step: the call has returned, or it is deadlocked.\<close>

definition threads :: "'e state \<Rightarrow> tid list" where
  "threads s = Main # map G [0..<length (gs s)]"

definition quiescent :: "'e call \<Rightarrow> 'e state \<Rightarrow> bool" where
  "quiescent c s = list_all (\<lambda>t. step c t s = None) (threads s)"

text \<open>The number of task bodies executing in a state.\<close>

definition executing :: "'e state \<Rightarrow> nat" where
  "executing s = length (filter (\<lambda>g. gpc g = PInTask) (gs s))"

text \<open>Tasks used as concrete inputs: one that succeeds, one that fails with its index.\<close>

definition succeeds :: "int Func" where
  "succeeds i = None"

definition fails :: "int Func" where
  "fails i = Some i"

subsection \<open>What holds in every reachable state\<close>

text \<open>
  The facts below are stated for a call \<open>c\<close> and proved to hold in the start state and
  to be kept by every step. \<open>failed g\<close>: the task of goroutine \<open>g\<close> returned an error.
  \<open>kind_of\<close>, \<open>task_of\<close>: the function and the task that the caller's loop gives to
  goroutine number \<open>k\<close>.
\<close>

definition failed :: "'e goroutine \<Rightarrow> bool" where
  "failed g \<longleftrightarrow> err g \<noteq> None"

fun kind_of :: "'e call \<Rightarrow> kind" where
  "kind_of (Func_Do fn cnt maxParallel) = DoOne"
| "kind_of (Funcs_Do fns maxParallel) = DoOp"

fun task_of :: "'e call \<Rightarrow> nat \<Rightarrow> 'e Func" where
  "task_of (Func_Do fn cnt maxParallel) k = fn"
| "task_of (Funcs_Do fns maxParallel) k = fns ! k"

text \<open>
  Goroutine \<open>k\<close> has the arguments the loop gave it, is at a place of its own function,
  is in the retry loop of \<^verbatim>\<open>Add\<close> only with an error, and after the task has returned
  holds the task's result.
\<close>

definition wf_g :: "'e call \<Rightarrow> nat \<Rightarrow> 'e goroutine \<Rightarrow> bool" where
  "wf_g c k g \<longleftrightarrow>
     kind g = kind_of c \<and> idx g = int k \<and> task g = task_of c k
     \<and> (kind g = DoOne \<longrightarrow> gpc g \<noteq> PAcquire \<and> gpc g \<noteq> PRelease)
     \<and> (kind g = DoOp \<longrightarrow> gpc g \<noteq> PDeferAcquire)
     \<and> (gpc g \<in> {PAddLoad, PAddCAS} \<longrightarrow> failed g)
     \<and> (gpc g \<notin> {PAcquire, PCall, PInTask} \<longrightarrow> err g = task_of c k (int k))"

definition inv_gs :: "'e call \<Rightarrow> 'e state \<Rightarrow> bool" where
  "inv_gs c s \<longleftrightarrow>
     (\<forall>k < length (gs s). wf_g c k (gs s ! k))
     \<and> (case mpc s of
          MLoop i \<Rightarrow> i = int (length (gs s)) \<and> i \<le> units c
        | MWait \<Rightarrow> int (length (gs s)) = units c
        | MReturned r \<Rightarrow> int (length (gs s)) = units c)"

text \<open>The events a goroutine has logged, as a function of where it is.\<close>

fun pre_Add :: "kind \<Rightarrow> nat \<Rightarrow> int \<Rightarrow> event list" where
  "pre_Add DoOp k i = [Acquired k, Invoked k i, Returned k]"
| "pre_Add DoOne k i = [Invoked k i, Returned k]"

definition recorded :: "nat \<Rightarrow> 'e goroutine \<Rightarrow> event list" where
  "recorded k g = (if failed g then [Recorded k] else [])"

definition events_of :: "nat \<Rightarrow> 'e goroutine \<Rightarrow> event list" where
  "events_of k g =
     (case gpc g of
        PAcquire \<Rightarrow> []
      | PCall \<Rightarrow> (case kind g of DoOp \<Rightarrow> [Acquired k] | DoOne \<Rightarrow> [])
      | PInTask \<Rightarrow> (case kind g of DoOp \<Rightarrow> [Acquired k, Invoked k (idx g)]
                     | DoOne \<Rightarrow> [Invoked k (idx g)])
      | PAdd \<Rightarrow> pre_Add (kind g) k (idx g)
      | PAddLoad \<Rightarrow> pre_Add (kind g) k (idx g)
      | PAddCAS \<Rightarrow> pre_Add (kind g) k (idx g)
      | PRelease \<Rightarrow> pre_Add (kind g) k (idx g) @ recorded k g
      | PDeferAcquire \<Rightarrow> pre_Add (kind g) k (idx g) @ recorded k g
      | PDone \<Rightarrow> pre_Add (kind g) k (idx g) @ recorded k g
                 @ [case kind g of DoOp \<Rightarrow> Released k | DoOne \<Rightarrow> Acquired k]
      | PExit \<Rightarrow> pre_Add (kind g) k (idx g) @ recorded k g
                 @ [case kind g of DoOp \<Rightarrow> Released k | DoOne \<Rightarrow> Acquired k, Signaled k])"

definition inv_trace :: "'e state \<Rightarrow> bool" where
  "inv_trace s \<longleftrightarrow>
     (\<forall>k. filter (\<lambda>e. unit_of e = k) (trace s)
          = (if k < length (gs s) then events_of k (gs s ! k) else []))"

text \<open>
  Counting: \<^verbatim>\<open>wg\<close> is the number of units that have not called \<^verbatim>\<open>wg.Done()\<close>; the
  semaphore's queue holds one element for each goroutine that has sent and not received.
\<close>

definition exited :: "'e goroutine \<Rightarrow> int" where
  "exited g = (if gpc g = PExit then 1 else 0)"

definition inv_wg :: "'e call \<Rightarrow> 'e state \<Rightarrow> bool" where
  "inv_wg c s \<longleftrightarrow> wg s + sum_list (map exited (gs s)) = units c"

definition holds :: "'e goroutine \<Rightarrow> nat" where
  "holds g =
     (case kind g of
        DoOp \<Rightarrow> (if gpc g \<in> {PCall, PInTask, PAdd, PAddLoad, PAddCAS, PRelease} then 1 else 0)
      | DoOne \<Rightarrow> (if gpc g \<in> {PDone, PExit} then 1 else 0))"

fun maxParallel_of :: "'e call \<Rightarrow> int list" where
  "maxParallel_of (Func_Do fn cnt maxParallel) = maxParallel"
| "maxParallel_of (Funcs_Do fns maxParallel) = maxParallel"

definition inv_sema :: "int \<Rightarrow> 'e call \<Rightarrow> 'e state \<Rightarrow> bool" where
  "inv_sema maxproc c s \<longleftrightarrow>
     queued (sema s) = sum_list (map holds (gs s))
     \<and> queued (sema s) \<le> capacity (sema s)
     \<and> (units c \<noteq> 0 \<longrightarrow>
          0 < max_parallel maxproc (maxParallel_of c)
          \<and> capacity (sema s) = nat (max_parallel maxproc (maxParallel_of c)))"

text \<open>
  \<open>added g\<close>: the error of \<open>g\<close> once its \<^verbatim>\<open>Add\<close> has returned. \<open>cas_ready\<close>: before the
  compare-and-swap, \<^verbatim>\<open>newVal\<close> is the error in front of the slice that was loaded, and
  \<^verbatim>\<open>p.errs\<close> is not \<^verbatim>\<open>nil\<close> in the retry loop. The slice \<^verbatim>\<open>p.errs\<close> points to holds
  the errors added so far.
\<close>

definition added :: "'e goroutine \<Rightarrow> 'e option multiset" where
  "added g =
     (if gpc g \<in> {PRelease, PDeferAcquire, PDone, PExit} \<and> failed g then {#err g#} else {#})"

definition cas_ready :: "'e store \<Rightarrow> nat option \<Rightarrow> 'e goroutine \<Rightarrow> bool" where
  "cas_ready h p g \<longleftrightarrow>
     (gpc g = PAddCAS \<longrightarrow>
        current g < length h \<and> newVal g < length h \<and> h ! newVal g = err g # h ! current g)
     \<and> (gpc g = PAddLoad \<or> gpc g = PAddCAS \<longrightarrow> p \<noteq> None)"

definition inv_errs :: "'e state \<Rightarrow> bool" where
  "inv_errs s \<longleftrightarrow>
     (\<forall>a. errs s = Some a \<longrightarrow> a < length (heap s))
     \<and> mset (List (heap s) (errs s)) = sum_list (map added (gs s))
     \<and> (\<forall>g \<in> set (gs s). cas_ready (heap s) (errs s) g)
     \<and> (\<forall>xs \<in> set (heap s). None \<notin> set xs)"

text \<open>Once the caller has returned, all goroutines have ended and the result is \<^verbatim>\<open>errs.Err()\<close>.\<close>

definition inv_ret :: "'e state \<Rightarrow> bool" where
  "inv_ret s \<longleftrightarrow>
     (\<forall>r. mpc s = MReturned r \<longrightarrow>
        r = Err (heap s) (errs s) \<and> (\<forall>g \<in> set (gs s). gpc g = PExit))"

text \<open>All invariants together, and their preservation along a run.\<close>

definition invs :: "int \<Rightarrow> 'e call \<Rightarrow> 'e state \<Rightarrow> bool" where
  "invs maxproc c s \<longleftrightarrow>
     inv_gs c s \<and> inv_trace s \<and> inv_wg c s \<and> inv_sema maxproc c s \<and> inv_errs s \<and> inv_ret s"

text \<open>Concrete calls and schedules, used as inputs.\<close>

definition Func_Do_2_of_2 :: "int call" where
  "Func_Do_2_of_2 = Func_Do fails 2 [2]"

definition sched_2_of_2 :: "tid list" where
  "sched_2_of_2 = [Main, Main, Main, G 0, G 0, G 0, G 0, G 1, G 1, G 1, G 1, G 0, G 1, G 1, G 1,
     G 0, G 0, G 1, G 1, Main]"

text \<open>
  The order of the events of unit \<open>k\<close> in \<^verbatim>\<open>doOp\<close>, read off its body: the \<^verbatim>\<open>defer\<close>
  statement acquires, \<^verbatim>\<open>errs.Add(fn(i))\<close> calls the task and stores its error, then
  the deferred calls run in reverse order: the release, then \<^verbatim>\<open>wg.Done()\<close>.
\<close>

definition doOp_order :: "nat \<Rightarrow> bool \<Rightarrow> event list" where
  "doOp_order k failing =
     [Acquired k, Invoked k (int k), Returned k] @ (if failing then [Recorded k] else [])
       @ [Released k, Signaled k]"

definition Funcs_Do_1 :: "int call" where
  "Funcs_Do_1 = Funcs_Do [fails] [1]"

definition Func_Do_1 :: "int call" where
  "Func_Do_1 = Func_Do fails 1 [1]"

definition sched_Funcs_Do_1 :: "tid list" where
  "sched_Funcs_Do_1 = [Main, Main, G 0, G 0, G 0, G 0, G 0, G 0, G 0, G 0, Main]"

definition sched_Func_Do_1 :: "tid list" where
  "sched_Func_Do_1 = [Main, Main, G 0, G 0, G 0, G 0, G 0, G 0, G 0, Main]"

definition Funcs_Do_2 :: "int call" where
  "Funcs_Do_2 = Funcs_Do [succeeds, fails] [1]"

definition sched_Funcs_Do_2 :: "tid list" where
  "sched_Funcs_Do_2 = [Main, Main, Main, G 0, G 0, G 0, G 0, G 0, G 0,
     G 1, G 1, G 1, G 1, G 1, G 1, G 1, G 1, Main]"

text \<open>What the units of a call return: unit \<open>k\<close> runs its task on index \<open>k\<close>.\<close>

definition outcomes :: "'e call \<Rightarrow> 'e option list" where
  "outcomes c = map (\<lambda>k. task_of c k (int k)) [0..<nat (units c)]"

definition Func_Do_2_cap_1 :: "int call" where
  "Func_Do_2_cap_1 = Func_Do succeeds 2 [1]"

definition sched_deadlock :: "tid list" where
  "sched_deadlock = [Main, Main, Main, G 0, G 0, G 0, G 0, G 0, G 1, G 1, G 1]"

definition sched_overlap :: "tid list" where
  "sched_overlap = [Main, Main, Main, G 0, G 1]"

text \<open>
  A bound on the steps still to come, for showing that every run is finite. A goroutine
  about to retry its compare-and-swap weighs more than one whose loaded pointer is still
  current; a successful compare-and-swap may make the others retry, and is paid for by
  the number of goroutines that have not yet left \<^verbatim>\<open>errs.Add\<close>.
\<close>

definition weight :: "nat option \<Rightarrow> 'e goroutine \<Rightarrow> int" where
  "weight p g =
     (case gpc g of
        PAcquire \<Rightarrow> 10 | PCall \<Rightarrow> 9 | PInTask \<Rightarrow> 8 | PAdd \<Rightarrow> 7 | PAddLoad \<Rightarrow> 5
      | PAddCAS \<Rightarrow> (if p = Some (current g) then 4 else 6)
      | PRelease \<Rightarrow> 3 | PDeferAcquire \<Rightarrow> 3 | PDone \<Rightarrow> 1 | PExit \<Rightarrow> 0)"

definition pending :: "'e goroutine \<Rightarrow> int" where
  "pending g =
     (if gpc g \<in> {PAcquire, PCall, PInTask, PAdd, PAddLoad, PAddCAS} then 1 else 0)"

definition steps_left :: "'e call \<Rightarrow> 'e state \<Rightarrow> int" where
  "steps_left c s =
     (case mpc s of
        MLoop i \<Rightarrow> (units c - int (length (gs s))) * (12 + 2 * units c) + 2
      | MWait \<Rightarrow> 1
      | MReturned r \<Rightarrow> 0)
     + sum_list (map (weight (errs s)) (gs s))
     + (2 * units c + 1) * sum_list (map pending (gs s))"

definition Func_Do_fails_2_cap_1 :: "int call" where
  "Func_Do_fails_2_cap_1 = Func_Do fails 2 [1]"

definition sched_fails_deadlock :: "tid list" where
  "sched_fails_deadlock = [Main, Main, Main, G 0, G 0, G 0, G 0, G 0, G 0, G 0,
     G 1, G 1, G 1, G 1, G 1]"

section \<open>Semaphore: properties\<close>

lemma chan_send_bounds:
  "chan_send s = Some s' \<Longrightarrow> queued s \<le> capacity s \<Longrightarrow>
     capacity s' = capacity s \<and> queued s' \<le> capacity s'"
  by (auto simp: chan_send_def split: if_splits)

lemma chan_recv_bounds:
  "chan_recv s = Some s' \<Longrightarrow> queued s \<le> capacity s \<Longrightarrow>
     capacity s' = capacity s \<and> queued s' \<le> capacity s'"
  by (auto simp: chan_recv_def split: if_splits)

lemma sem_apply_bounds:
  "sem_apply x s = Some s' \<Longrightarrow> queued s \<le> capacity s \<Longrightarrow>
     capacity s' = capacity s \<and> queued s' \<le> capacity s'"
proof (cases x)
  case (Op_Invoke r)
  assume "sem_apply x s = Some s'" "queued s \<le> capacity s"
  with Op_Invoke show ?thesis
    by (cases r) (auto simp: Release_def dest: chan_recv_bounds)
next
  case Op_MaybeAcquire
  assume "sem_apply x s = Some s'" "queued s \<le> capacity s"
  with Op_MaybeAcquire show ?thesis
    by (auto simp: MaybeAcquire_def split: option.splits dest: chan_send_bounds)
qed (auto simp: Acquire_def Release_def AcquireRelease_def split: option.splits
      dest: chan_send_bounds chan_recv_bounds)

lemma sem_ops_bounds:
  "sem_ops xs s = Some s' \<Longrightarrow> queued s \<le> capacity s \<Longrightarrow>
     capacity s' = capacity s \<and> queued s' \<le> capacity s'"
proof (induction xs arbitrary: s)
  case Nil
  then show ?case by simp
next
  case (Cons x xs)
  from Cons.prems obtain s1 where s1: "sem_apply x s = Some s1" and rest: "sem_ops xs s1 = Some s'"
    by (auto split: option.splits)
  from sem_apply_bounds[OF s1 Cons.prems(2)] Cons.IH[OF rest] show ?case by simp
qed

text \<open>
  C7. A semaphore built by \<^verbatim>\<open>NewSemaphore max\<close> keeps its count of available tokens
  between 0 and \<open>max\<close> after any sequence of completed Acquire, Release, AcquireRelease
  and MaybeAcquire operations and calls of the release actions they return.
\<close>

theorem semaphore_available_in_range:
  assumes "NewSemaphore mx = Inr s" and "sem_ops xs s = Some s'"
  shows "0 \<le> available s' \<and> available s' \<le> mx"
proof -
  from assms(1) have s: "capacity s = nat mx" "queued s = 0" "1 \<le> mx"
    by (auto simp: NewSemaphore_def split: if_splits)
  from sem_ops_bounds[OF assms(2)] s have "capacity s' = nat mx" "queued s' \<le> capacity s'"
    by simp_all
  with s(3) show ?thesis by (simp add: available_def)
qed

theorem semaphore_available_in_range_witness:
  "NewSemaphore 2 = Inr \<lparr>capacity = 2, queued = 0\<rparr>
   \<and> sem_ops [Op_Acquire, Op_MaybeAcquire, Op_MaybeAcquire, Op_Invoke noop, Op_Release,
        Op_AcquireRelease, Op_Invoke Release_of_s]
        \<lparr>capacity = 2, queued = 0\<rparr> = Some \<lparr>capacity = 2, queued = 1\<rparr>
   \<and> 0 \<le> available \<lparr>capacity = 2, queued = 1\<rparr>
   \<and> available \<lparr>capacity = 2, queued = 1\<rparr> \<le> 2"
proof -
  have a: "NewSemaphore 2 = Inr \<lparr>capacity = 2, queued = 0\<rparr>"
    by (simp add: NewSemaphore_def)
  have b: "sem_ops [Op_Acquire, Op_MaybeAcquire, Op_MaybeAcquire, Op_Invoke noop, Op_Release,
        Op_AcquireRelease, Op_Invoke Release_of_s]
        \<lparr>capacity = 2, queued = 0\<rparr> = Some \<lparr>capacity = 2, queued = 1\<rparr>"
    by (simp add: Acquire_def Release_def AcquireRelease_def MaybeAcquire_def
        chan_send_def chan_recv_def)
  from semaphore_available_in_range[OF a b] a b show ?thesis by simp
qed

section \<open>The dispatcher: steps and invariants\<close>

lemma failed_upd [simp]:
  "failed (g\<lparr>gpc := p\<rparr>) = failed g"
  "failed (g\<lparr>current := a\<rparr>) = failed g"
  "failed (g\<lparr>newVal := b\<rparr>) = failed g"
  by (simp_all add: failed_def)

lemma gstepE [consumes 1, case_names Acquire Call Return AddNil AddInit Load CAS_ok CAS_fail Release DeferAcquire Done]:
  assumes "gstep k g s = Some s'"
  obtains
    c where "gpc g = PAcquire" "chan_send (sema s) = Some c"
      "s' = emit (Acquired k) (at k (g\<lparr>gpc := PCall\<rparr>) (s\<lparr>sema := c\<rparr>))"
  | "gpc g = PCall" "s' = emit (Invoked k (idx g)) (at k (g\<lparr>gpc := PInTask\<rparr>) s)"
  | "gpc g = PInTask"
      "s' = emit (Returned k) (at k (g\<lparr>gpc := PAdd, err := task g (idx g)\<rparr>) s)"
  | "gpc g = PAdd" "\<not> failed g" "s' = at k (g\<lparr>gpc := after_Add (kind g)\<rparr>) s"
  | "gpc g = PAdd" "failed g"
      "s' = at k (g\<lparr>gpc := PAddLoad\<rparr>)
             (s\<lparr>heap := heap s @ [[]],
                errs := (if errs s = None then Some (length (heap s)) else errs s)\<rparr>)"
  | a where "gpc g = PAddLoad" "errs s = Some a"
      "s' = at k (g\<lparr>gpc := PAddCAS, current := a, newVal := length (heap s)\<rparr>)
             (s\<lparr>heap := heap s @ [err g # heap s ! a]\<rparr>)"
  | "gpc g = PAddCAS" "errs s = Some (current g)"
      "s' = emit (Recorded k)
             (at k (g\<lparr>gpc := after_Add (kind g)\<rparr>) (s\<lparr>errs := Some (newVal g)\<rparr>))"
  | "gpc g = PAddCAS" "errs s \<noteq> Some (current g)" "s' = at k (g\<lparr>gpc := PAddLoad\<rparr>) s"
  | c where "gpc g = PRelease" "chan_recv (sema s) = Some c"
      "s' = emit (Released k) (at k (g\<lparr>gpc := PDone\<rparr>) (s\<lparr>sema := c\<rparr>))"
  | c where "gpc g = PDeferAcquire" "chan_send (sema s) = Some c"
      "s' = emit (Acquired k) (at k (g\<lparr>gpc := PDone\<rparr>) (s\<lparr>sema := c\<rparr>))"
  | "gpc g = PDone"
      "s' = emit (Signaled k) (at k (g\<lparr>gpc := PExit\<rparr>) (s\<lparr>wg := wg s - 1\<rparr>))"
  using assms
  by (cases "gpc g")
     (auto simp: gstep_def AcquireRelease_def Release_def failed_def split: option.splits if_splits)

lemma mstepE [consumes 1, case_names Spawn LoopEnd Wait]:
  assumes "mstep c s = Some s'"
  obtains
    i where "mpc s = MLoop i" "i < units c"
      "s' = s\<lparr>gs := gs s @ [spawn c i], mpc := MLoop (i + 1)\<rparr>"
  | i where "mpc s = MLoop i" "\<not> i < units c" "s' = s\<lparr>mpc := MWait\<rparr>"
  | "mpc s = MWait" "wg s = 0" "s' = s\<lparr>mpc := MReturned (Err (heap s) (errs s))\<rparr>"
  using assms
  by (cases "mpc s") (auto simp: mstep_def split: if_splits)

lemma sum_list_map_update:
  fixes f :: "'a \<Rightarrow> 'b::comm_monoid_add"
  shows "k < length xs \<Longrightarrow>
         sum_list (map f (xs[k := y])) + f (xs ! k) = sum_list (map f xs) + f y"
proof (induction xs arbitrary: k)
  case Nil
  then show ?case by simp
next
  case (Cons x xs)
  show ?case
  proof (cases k)
    case 0
    then show ?thesis by (simp add: ac_simps)
  next
    case (Suc j)
    with Cons.prems have "j < length xs" by simp
    from Cons.IH[OF this] Suc show ?thesis
      by (simp add: ac_simps)
  qed
qed

lemma start_cases:
  assumes "start maxproc c = Inr s0"
  obtains "units c = 0" "s0 = returned_nil"
  | sem where "0 < units c" "NewSemaphore (max_parallel maxproc (case c of Func_Do fn cnt mp \<Rightarrow> mp | Funcs_Do fns mp \<Rightarrow> mp)) = Inr sem" "s0 = spawning (units c) sem"
  using assms
  by (cases c) (auto simp: Func_Do_start_def Funcs_Do_start_def split: if_splits sum.splits)

lemma inv_gs_start: "start maxproc c = Inr s0 \<Longrightarrow> inv_gs c s0"
  by (erule start_cases) (auto simp: inv_gs_def returned_nil_def spawning_def)

lemma wf_g_spawn: "wf_g c k (spawn c (int k))"
  by (cases c) (auto simp: wf_g_def)

lemma inv_gs_mstep:
  assumes "mstep c s = Some s'" "inv_gs c s"
  shows "inv_gs c s'"
  using assms
proof (cases rule: mstepE)
  case (Spawn i)
  with assms(2) show ?thesis
    by (auto simp: inv_gs_def nth_append wf_g_spawn less_Suc_eq)
next
  case (LoopEnd i)
  with assms(2) show ?thesis by (auto simp: inv_gs_def)
next
  case Wait
  with assms(2) show ?thesis by (auto simp: inv_gs_def)
qed

lemma inv_gs_at:
  assumes "inv_gs c s" "k < length (gs s)" "mpc s' = mpc s"
    "length (gs s') = length (gs s)"
    "\<forall>j<length (gs s). j \<noteq> k \<longrightarrow> gs s' ! j = gs s ! j"
    "wf_g c k (gs s' ! k)"
  shows "inv_gs c s'"
proof -
  have "wf_g c j (gs s' ! j)" if "j < length (gs s')" for j
    using that assms by (cases "j = k") (auto simp: inv_gs_def)
  with assms(1,3,4) show ?thesis
    by (auto simp: inv_gs_def split: mpc.splits)
qed

lemma at_simps [simp]:
  "gs (at k g s) = (gs s)[k := g]" "mpc (at k g s) = mpc s" "wg (at k g s) = wg s"
  "sema (at k g s) = sema s" "heap (at k g s) = heap s" "errs (at k g s) = errs s"
  "trace (at k g s) = trace s"
  by (simp_all add: at_def)

lemma emit_simps [simp]:
  "gs (emit e s) = gs s" "mpc (emit e s) = mpc s" "wg (emit e s) = wg s"
  "sema (emit e s) = sema s" "heap (emit e s) = heap s" "errs (emit e s) = errs s"
  "trace (emit e s) = trace s @ [e]"
  by (simp_all add: emit_def)

lemma inv_gs_gstep:
  assumes "gstep k (gs s ! k) s = Some s'" "inv_gs c s" "k < length (gs s)"
  shows "inv_gs c s'"
proof -
  from assms(2,3) have wf: "wf_g c k (gs s ! k)" by (simp add: inv_gs_def)
  note I = inv_gs_at[OF assms(2,3)]
  from assms(1) show ?thesis
  proof (cases rule: gstepE)
    case (Acquire c)
    with wf assms(3) show ?thesis by (intro I) (auto simp: wf_g_def)
  next
    case Call
    with wf assms(3) show ?thesis by (intro I) (auto simp: wf_g_def)
  next
    case Return
    with wf assms(3) show ?thesis by (intro I) (auto simp: wf_g_def)
  next
    case AddNil
    with wf assms(3) show ?thesis by (cases "kind (gs s ! k)") (auto intro!: I simp: wf_g_def)
  next
    case AddInit
    with wf assms(3) show ?thesis by (intro I) (auto simp: wf_g_def)
  next
    case (Load a)
    with wf assms(3) show ?thesis by (intro I) (auto simp: wf_g_def)
  next
    case CAS_ok
    with wf assms(3) show ?thesis by (cases "kind (gs s ! k)") (auto intro!: I simp: wf_g_def)
  next
    case CAS_fail
    with wf assms(3) show ?thesis by (intro I) (auto simp: wf_g_def)
  next
    case (Release c)
    with wf assms(3) show ?thesis by (intro I) (auto simp: wf_g_def)
  next
    case (DeferAcquire c)
    with wf assms(3) show ?thesis by (intro I) (auto simp: wf_g_def)
  next
    case Done
    with wf assms(3) show ?thesis by (intro I) (auto simp: wf_g_def)
  qed
qed

lemma inv_gs_step:
  assumes "step c t s = Some s'" "inv_gs c s"
  shows "inv_gs c s'"
proof (cases t)
  case Main
  with assms show ?thesis by (auto intro: inv_gs_mstep)
next
  case (G k)
  with assms show ?thesis by (auto intro: inv_gs_gstep split: if_splits)
qed

lemma events_of_spawn: "events_of k (spawn c i) = []"
  by (cases c) (simp_all add: events_of_def)

lemma recorded_upd [simp]: "recorded k (g\<lparr>gpc := p\<rparr>) = recorded k g"
  by (simp add: recorded_def)

lemma inv_trace_start: "start maxproc c = Inr s0 \<Longrightarrow> inv_trace s0"
  by (erule start_cases) (auto simp: inv_trace_def returned_nil_def spawning_def)

lemma inv_trace_mstep:
  assumes "mstep c s = Some s'" "inv_trace s"
  shows "inv_trace s'"
  using assms
  by (cases rule: mstepE) (auto simp: inv_trace_def nth_append events_of_spawn)

lemma inv_trace_silent:
  assumes "inv_trace s" "k < length (gs s)" "trace s' = trace s"
    "gs s' = (gs s)[k := g']" "events_of k g' = events_of k (gs s ! k)"
  shows "inv_trace s'"
  using assms by (auto simp: inv_trace_def nth_list_update)

lemma inv_trace_emit:
  assumes "inv_trace s" "k < length (gs s)" "trace s' = trace s @ [e]" "unit_of e = k"
    "gs s' = (gs s)[k := g']" "events_of k g' = events_of k (gs s ! k) @ [e]"
  shows "inv_trace s'"
  using assms by (auto simp: inv_trace_def nth_list_update)

lemma inv_trace_gstep:
  assumes "gstep k (gs s ! k) s = Some s'" "inv_trace s" "inv_gs c s" "k < length (gs s)"
  shows "inv_trace s'"
proof -
  from assms(3,4) have wf: "wf_g c k (gs s ! k)" by (simp add: inv_gs_def)
  note S = inv_trace_silent[OF assms(2,4), where s' = s']
  note E = inv_trace_emit[OF assms(2,4), where s' = s']
  from assms(1) show ?thesis
  proof (cases rule: gstepE)
    case (Acquire c)
    with wf show ?thesis
      by (intro E[where e = "Acquired k"]) (auto simp: events_of_def wf_g_def split: kind.splits)
  next
    case Call
    with wf show ?thesis
      by (intro E[where e = "Invoked k (idx (gs s ! k))"]) (auto simp: events_of_def split: kind.splits)
  next
    case Return
    with wf show ?thesis
      by (intro E[where e = "Returned k"]) (auto simp: events_of_def split: kind.splits)
  next
    case AddNil
    with wf show ?thesis
      by (intro S) (auto simp: events_of_def recorded_def wf_g_def split: kind.splits)
  next
    case AddInit
    with wf show ?thesis by (intro S) (auto simp: events_of_def)
  next
    case (Load a)
    with wf show ?thesis by (intro S) (auto simp: events_of_def)
  next
    case CAS_ok
    with wf show ?thesis
      by (intro E[where e = "Recorded k"]) (auto simp: events_of_def recorded_def wf_g_def split: kind.splits)
  next
    case CAS_fail
    with wf show ?thesis by (intro S) (auto simp: events_of_def)
  next
    case (Release c)
    with wf show ?thesis
      by (intro E[where e = "Released k"]) (auto simp: events_of_def wf_g_def split: kind.splits)
  next
    case (DeferAcquire c)
    with wf show ?thesis
      by (intro E[where e = "Acquired k"]) (auto simp: events_of_def wf_g_def split: kind.splits)
  next
    case Done
    with wf show ?thesis
      by (intro E[where e = "Signaled k"]) (auto simp: events_of_def split: kind.splits)
  qed
qed

lemma inv_trace_step:
  assumes "step c t s = Some s'" "inv_trace s" "inv_gs c s"
  shows "inv_trace s'"
proof (cases t)
  case Main
  with assms show ?thesis by (auto intro: inv_trace_mstep)
next
  case (G k)
  with assms show ?thesis by (auto intro: inv_trace_gstep split: if_splits)
qed

lemma sum_list_map_update_same:
  fixes f :: "'a \<Rightarrow> 'b::cancel_comm_monoid_add"
  assumes "k < length xs" "f y = f (xs ! k)"
  shows "sum_list (map f (xs[k := y])) = sum_list (map f xs)"
  using sum_list_map_update[OF assms(1), of f y] assms(2) by simp

lemma sum_list_map_update_int:
  fixes f :: "'a \<Rightarrow> int"
  assumes "k < length xs"
  shows "sum_list (map f (xs[k := y])) = sum_list (map f xs) - f (xs ! k) + f y"
  using sum_list_map_update[OF assms(1), of f y] by simp

lemma sum_list_map_update_nat:
  fixes f :: "'a \<Rightarrow> nat"
  assumes "k < length xs"
  shows "sum_list (map f (xs[k := y])) = sum_list (map f xs) - f (xs ! k) + f y"
    and "f (xs ! k) \<le> sum_list (map f xs)"
proof -
  from assms have "f (xs ! k) \<in> set (map f xs)" by simp
  then show le: "f (xs ! k) \<le> sum_list (map f xs)" by (intro member_le_sum_list) simp_all
  from sum_list_map_update[OF assms(1), of f y] le
  show "sum_list (map f (xs[k := y])) = sum_list (map f xs) - f (xs ! k) + f y" by simp
qed

lemma inv_wg_start: "start maxproc c = Inr s0 \<Longrightarrow> inv_wg c s0"
  by (erule start_cases) (auto simp: inv_wg_def returned_nil_def spawning_def)

lemma exited_spawn: "exited (spawn c i) = 0"
  by (cases c) (simp_all add: exited_def)

lemma inv_wg_mstep:
  assumes "mstep c s = Some s'" "inv_wg c s"
  shows "inv_wg c s'"
  using assms
  by (cases rule: mstepE) (auto simp: inv_wg_def exited_spawn)

lemma inv_wg_gstep:
  assumes "gstep k (gs s ! k) s = Some s'" "inv_wg c s" "k < length (gs s)"
  shows "inv_wg c s'"
  using assms(1)
proof (cases rule: gstepE)
  case AddNil
  with assms(2,3) show ?thesis
    by (cases "kind (gs s ! k)")
      (auto simp: inv_wg_def exited_def sum_list_map_update_int)
next
  case CAS_ok
  with assms(2,3) show ?thesis
    by (cases "kind (gs s ! k)")
      (auto simp: inv_wg_def exited_def sum_list_map_update_int)
qed (use assms(2,3) in \<open>auto simp: inv_wg_def exited_def sum_list_map_update_int\<close>)

lemma inv_wg_step:
  assumes "step c t s = Some s'" "inv_wg c s"
  shows "inv_wg c s'"
proof (cases t)
  case Main
  with assms show ?thesis by (auto intro: inv_wg_mstep)
next
  case (G k)
  with assms show ?thesis by (auto intro: inv_wg_gstep split: if_splits)
qed

lemma all_exited:
  "sum_list (map exited xs) = int (length xs) \<Longrightarrow> g \<in> set xs \<Longrightarrow> gpc g = PExit"
proof (induction xs)
  case Nil
  then show ?case by simp
next
  case (Cons x xs)
  have le: "sum_list (map exited ys) \<le> int (length ys)" for ys :: "'a goroutine list"
    by (induction ys) (auto simp: exited_def)
  have x01: "exited x = 0 \<or> exited x = 1" by (simp add: exited_def)
  from Cons.prems(1) have "exited x + sum_list (map exited xs) = 1 + int (length xs)"
    by simp
  with le[of xs] x01 have *: "exited x = 1" "sum_list (map exited xs) = int (length xs)"
    by arith+
  from *(1) have "gpc x = PExit" by (simp add: exited_def split: if_splits)
  with Cons.IH[OF *(2)] Cons.prems(2) show ?case by auto
qed

lemma inv_sema_start: "start maxproc c = Inr s0 \<Longrightarrow> inv_sema maxproc c s0"
  by (cases c)
    (auto simp: inv_sema_def returned_nil_def spawning_def Func_Do_start_def
      Funcs_Do_start_def NewSemaphore_def split: if_splits)

lemma holds_spawn: "holds (spawn c i) = 0"
  by (cases c) (simp_all add: holds_def)

lemma inv_sema_mstep:
  assumes "mstep c s = Some s'" "inv_sema maxproc c s"
  shows "inv_sema maxproc c s'"
  using assms
  by (cases rule: mstepE) (auto simp: inv_sema_def holds_spawn)

lemma chan_sendD:
  "chan_send c = Some c' \<Longrightarrow>
     queued c < capacity c \<and> queued c' = queued c + 1 \<and> capacity c' = capacity c"
  by (auto simp: chan_send_def split: if_splits)

lemma chan_recvD:
  "chan_recv c = Some c' \<Longrightarrow>
     0 < queued c \<and> queued c' = queued c - 1 \<and> capacity c' = capacity c"
  by (auto simp: chan_recv_def split: if_splits)

lemma inv_sema_gstep:
  assumes "gstep k (gs s ! k) s = Some s'" "inv_sema maxproc c s" "inv_gs c s"
    "k < length (gs s)"
  shows "inv_sema maxproc c s'"
proof -
  from assms(3,4) have wf: "wf_g c k (gs s ! k)" by (simp add: inv_gs_def)
  note U = sum_list_map_update_nat[OF assms(4), where f = holds]
  from assms(1) show ?thesis
  proof (cases rule: gstepE)
    case (Acquire c')
    with assms(2,4) wf U(2) chan_sendD[OF Acquire(2)] show ?thesis
      by (auto simp: inv_sema_def holds_def U(1) wf_g_def split: kind.splits)
  next
    case Call
    with assms(2,4) wf U(2) show ?thesis
      by (auto simp: inv_sema_def holds_def U(1) wf_g_def split: kind.splits)
  next
    case Return
    with assms(2,4) wf U(2) show ?thesis
      by (auto simp: inv_sema_def holds_def U(1) wf_g_def split: kind.splits)
  next
    case AddNil
    with assms(2,4) wf U(2) show ?thesis
      by (cases "kind (gs s ! k)") (auto simp: inv_sema_def holds_def U(1) wf_g_def)
  next
    case AddInit
    with assms(2,4) wf U(2) show ?thesis
      by (auto simp: inv_sema_def holds_def U(1) wf_g_def split: kind.splits)
  next
    case (Load a)
    with assms(2,4) wf U(2) show ?thesis
      by (auto simp: inv_sema_def holds_def U(1) wf_g_def split: kind.splits)
  next
    case CAS_ok
    with assms(2,4) wf U(2) show ?thesis
      by (cases "kind (gs s ! k)") (auto simp: inv_sema_def holds_def U(1) wf_g_def)
  next
    case CAS_fail
    with assms(2,4) wf U(2) show ?thesis
      by (auto simp: inv_sema_def holds_def U(1) wf_g_def split: kind.splits)
  next
    case (Release c')
    with assms(2,4) wf U(2) chan_recvD[OF Release(2)] show ?thesis
      by (auto simp: inv_sema_def holds_def U(1) wf_g_def split: kind.splits)
  next
    case (DeferAcquire c')
    with assms(2,4) wf U(2) chan_sendD[OF DeferAcquire(2)] show ?thesis
      by (auto simp: inv_sema_def holds_def U(1) wf_g_def split: kind.splits)
  next
    case Done
    with assms(2,4) wf U(2) show ?thesis
      by (auto simp: inv_sema_def holds_def U(1) wf_g_def split: kind.splits)
  qed
qed

section \<open>Semaphore: construction, MaybeAcquire, Release\<close>

lemma semaphore_bounds:
  assumes "NewSemaphore mx = Inr s" and "sem_ops xs s = Some s'"
  shows "0 \<le> available s' \<and> available s' \<le> mx"
    and "capacity s' = nat mx" and "queued s' \<le> capacity s'" and "1 \<le> mx"
proof -
  from assms(1) have s: "capacity s = nat mx" "queued s = 0" "1 \<le> mx"
    by (auto simp: NewSemaphore_def split: if_splits)
  from sem_ops_bounds[OF assms(2)] s show *: "capacity s' = nat mx" "queued s' \<le> capacity s'"
    by simp_all
  with s(3) show "0 \<le> available s' \<and> available s' \<le> mx" by (simp add: available_def)
  show "1 \<le> mx" by fact
qed

text \<open>
  C8. \<^verbatim>\<open>NewSemaphore\<close> with \<open>max < 1\<close> panics instead of returning a semaphore, while a
  cap of zero or below given to \<^verbatim>\<open>Func.Do\<close> or \<^verbatim>\<open>Funcs.Do\<close> is replaced by the default
  \<^verbatim>\<open>maxproc\<close> (GOMAXPROCS, at least 1): the call starts exactly as it does with no cap
  argument, with a semaphore of capacity \<^verbatim>\<open>maxproc\<close>, and does not panic.
\<close>

theorem NewSemaphore_panics_Do_falls_back:
  "(mx < 1 \<longrightarrow> NewSemaphore mx = Inl (NewSemaphore_max_lt_1 mx))
   \<and> (cap \<le> 0 \<and> 1 \<le> maxproc \<longrightarrow>
        max_parallel maxproc (cap # rest) = maxproc
        \<and> Func_Do_start maxproc cnt (cap # rest)
            = (Func_Do_start maxproc cnt [] :: panic + 'e state)
        \<and> Funcs_Do_start maxproc fns (cap # rest) = Funcs_Do_start maxproc fns []
        \<and> (0 < cnt \<longrightarrow> Func_Do_start maxproc cnt (cap # rest)
              = Inr (spawning cnt \<lparr>capacity = nat maxproc, queued = 0\<rparr> :: 'e state))
        \<and> (fns \<noteq> [] \<longrightarrow> Funcs_Do_start maxproc fns (cap # rest)
              = Inr (spawning (int (length fns)) \<lparr>capacity = nat maxproc, queued = 0\<rparr>)))"
  by (auto simp: NewSemaphore_def max_parallel_def Func_Do_start_def Funcs_Do_start_def)

theorem NewSemaphore_panics_Do_falls_back_witness:
  "NewSemaphore 0 = Inl (NewSemaphore_max_lt_1 0)
   \<and> max_parallel 4 [-1] = 4
   \<and> Func_Do_start 4 3 [-1] = Inr (spawning 3 \<lparr>capacity = 4, queued = 0\<rparr> :: int state)
   \<and> Funcs_Do_start 4 [succeeds] [-1] = Inr (spawning 1 \<lparr>capacity = 4, queued = 0\<rparr>)"
  using NewSemaphore_panics_Do_falls_back[of 0 "-1" 4 "[]" 3 "[succeeds]", where 'e = int]
  by auto

text \<open>
  C9. \<^verbatim>\<open>MaybeAcquire\<close> has a result in every state of the semaphore (it never blocks).
  When it reports \<open>ok = false\<close> the release action is \<^verbatim>\<open>noop\<close>: calling it, at any later
  time, completes and leaves the semaphore as it is. Whatever \<open>ok\<close> is, a completed call
  of the release action, after any further operations of other callers, leaves the
  available tokens between 0 and \<open>max\<close>.
\<close>

theorem MaybeAcquire_release_is_safe:
  assumes "NewSemaphore mx = Inr s0" and "sem_ops xs s0 = Some s"
    and "MaybeAcquire s = (ok, r, s1)" and "sem_ops ys s1 = Some t"
  shows "(\<not> ok \<longrightarrow> r = noop \<and> s1 = s \<and> invoke r t = Some t)
    \<and> (ok \<longrightarrow> r = Release_of_s \<and> available s1 = available s - 1)
    \<and> (\<forall>t'. invoke r t = Some t' \<longrightarrow> 0 \<le> available t' \<and> available t' \<le> mx)"
proof -
  from assms(3) have step: "sem_apply Op_MaybeAcquire s = Some s1"
    by simp
  have "sem_ops (xs @ Op_MaybeAcquire # ys @ [Op_Invoke r]) s0 = Some t'"
    if "invoke r t = Some t'" for t'
  proof -
    have app: "sem_ops (as @ bs) u = (case sem_ops as u of None \<Rightarrow> None | Some u' \<Rightarrow> sem_ops bs u')"
      for as bs u
      by (induction as arbitrary: u) (auto split: option.splits)
    from that assms(2,4) step show ?thesis
      by (simp add: app)
  qed
  then have "\<forall>t'. invoke r t = Some t' \<longrightarrow> 0 \<le> available t' \<and> available t' \<le> mx"
    using semaphore_bounds(1)[OF assms(1)] by blast
  moreover from assms(3) have "\<not> ok \<longrightarrow> r = noop \<and> s1 = s \<and> invoke r t = Some t"
    by (auto simp: MaybeAcquire_def split: option.splits)
  moreover from assms(3) have "ok \<longrightarrow> r = Release_of_s \<and> available s1 = available s - 1"
    by (auto simp: MaybeAcquire_def available_def chan_send_def split: option.splits if_splits)
  ultimately show ?thesis by blast
qed

theorem MaybeAcquire_release_is_safe_witness:
  "NewSemaphore 1 = Inr \<lparr>capacity = 1, queued = 0\<rparr>
   \<and> sem_ops [Op_Acquire] \<lparr>capacity = 1, queued = 0\<rparr> = Some \<lparr>capacity = 1, queued = 1\<rparr>
   \<and> MaybeAcquire \<lparr>capacity = 1, queued = 1\<rparr> = (False, noop, \<lparr>capacity = 1, queued = 1\<rparr>)
   \<and> sem_ops [Op_Release] \<lparr>capacity = 1, queued = 1\<rparr> = Some \<lparr>capacity = 1, queued = 0\<rparr>
   \<and> invoke noop \<lparr>capacity = 1, queued = 0\<rparr> = Some \<lparr>capacity = 1, queued = 0\<rparr>
   \<and> 0 \<le> available \<lparr>capacity = 1, queued = 0\<rparr>
   \<and> available \<lparr>capacity = 1, queued = 0\<rparr> \<le> 1"
proof -
  have a: "NewSemaphore 1 = Inr \<lparr>capacity = 1, queued = 0\<rparr>"
    by (simp add: NewSemaphore_def)
  have b: "sem_ops [Op_Acquire] \<lparr>capacity = 1, queued = 0\<rparr> = Some \<lparr>capacity = 1, queued = 1\<rparr>"
    by (simp add: Acquire_def chan_send_def)
  have c: "MaybeAcquire \<lparr>capacity = 1, queued = 1\<rparr>
           = (False, noop, \<lparr>capacity = 1, queued = 1\<rparr>)"
    by (simp add: MaybeAcquire_def chan_send_def)
  have d: "sem_ops [Op_Release] \<lparr>capacity = 1, queued = 1\<rparr> = Some \<lparr>capacity = 1, queued = 0\<rparr>"
    by (simp add: Release_def chan_recv_def)
  from MaybeAcquire_release_is_safe[OF a b c d] a b c d show ?thesis by simp
qed



section \<open>The dispatcher: the error aggregator and the return\<close>

lemma inv_errs_start: "start maxproc c = Inr s0 \<Longrightarrow> inv_errs s0"
  by (erule start_cases) (auto simp: inv_errs_def returned_nil_def spawning_def List_def)

lemma added_spawn: "added (spawn c i) = {#}"
  by (cases c) (simp_all add: added_def)

lemma cas_ready_spawn: "cas_ready h p (spawn c i)"
  by (cases c) (simp_all add: cas_ready_def)

lemma inv_errs_mstep:
  assumes "mstep c s = Some s'" "inv_errs s"
  shows "inv_errs s'"
  using assms(1)
proof (cases rule: mstepE)
  case (Spawn i)
  with assms(2) show ?thesis
    by (auto simp: inv_errs_def added_spawn cas_ready_spawn)
next
  case (LoopEnd i)
  with assms(2) show ?thesis by (auto simp: inv_errs_def)
next
  case Wait
  with assms(2) show ?thesis by (auto simp: inv_errs_def)
qed

lemma ball_list_update:
  assumes "\<forall>x \<in> set xs. P x" "P y"
  shows "\<forall>x \<in> set (xs[k := y]). P x"
  using assms set_update_subset_insert[of xs k y] by blast

lemma cas_ready_append:
  assumes "cas_ready h p g" "p \<noteq> None \<longrightarrow> p' \<noteq> None"
  shows "cas_ready (h @ [x]) p' g"
  using assms by (auto simp: cas_ready_def nth_append)

text \<open>A step that touches neither the store nor the pointer, nor the sum of stored errors.\<close>

lemma inv_errs_local:
  assumes "inv_errs s" "k < length (gs s)" "heap s' = heap s" "errs s' = errs s"
    "gs s' = (gs s)[k := gs s' ! k]" "added (gs s' ! k) = added (gs s ! k)"
    "cas_ready (heap s) (errs s) (gs s' ! k)"
  shows "inv_errs s'"
proof -
  let ?g' = "gs s' ! k"
  from assms(2,6) have "sum_list (map added ((gs s)[k := ?g'])) = sum_list (map added (gs s))"
    by (rule sum_list_map_update_same)
  moreover from assms(1,7) have "\<forall>g \<in> set ((gs s)[k := ?g']). cas_ready (heap s) (errs s) g"
    by (intro ball_list_update) (simp_all add: inv_errs_def)
  ultimately have "sum_list (map added (gs s')) = sum_list (map added (gs s))"
    "\<forall>g \<in> set (gs s'). cas_ready (heap s) (errs s) g"
    using assms(5) by simp_all
  then show ?thesis
    using assms(1,3,4) by (simp add: inv_errs_def)
qed

lemma inv_errs_gstep:
  assumes "gstep k (gs s ! k) s = Some s'" "inv_errs s" "inv_gs c s" "k < length (gs s)"
  shows "inv_errs s'"
proof -
  from assms(3,4) have wf: "wf_g c k (gs s ! k)" by (simp add: inv_gs_def)
  from assms(2,4) have cr: "cas_ready (heap s) (errs s) (gs s ! k)"
    by (simp add: inv_errs_def)
  note L = inv_errs_local[OF assms(2,4), where s' = s']
  from assms(1) show ?thesis
  proof (cases rule: gstepE)
    case (Acquire c')
    with assms(4) show ?thesis by (intro L) (simp_all add: added_def cas_ready_def)
  next
    case Call
    with assms(4) show ?thesis by (intro L) (simp_all add: added_def cas_ready_def)
  next
    case Return
    with assms(4) show ?thesis by (intro L) (simp_all add: added_def cas_ready_def)
  next
    case AddNil
    with assms(4) show ?thesis
      by (cases "kind (gs s ! k)"; intro L; simp add: added_def cas_ready_def)
  next
    case CAS_fail
    with cr assms(4) show ?thesis by (intro L) (simp_all add: added_def cas_ready_def)
  next
    case (Release c')
    with assms(4) show ?thesis by (intro L) (simp_all add: added_def cas_ready_def)
  next
    case (DeferAcquire c')
    with assms(4) show ?thesis by (intro L) (simp_all add: added_def cas_ready_def)
  next
    case Done
    with assms(4) show ?thesis by (intro L) (simp_all add: added_def cas_ready_def)
  next
    case AddInit
    let ?g' = "(gs s ! k)\<lparr>gpc := PAddLoad\<rparr>"
    let ?p' = "if errs s = None then Some (length (heap s)) else errs s"
    have p': "?p' \<noteq> None" by simp
    have sum: "sum_list (map added ((gs s)[k := ?g'])) = sum_list (map added (gs s))"
      using AddInit(1) by (intro sum_list_map_update_same[OF assms(4)]) (simp add: added_def)
    have "\<forall>g \<in> set (gs s). cas_ready (heap s @ [[]]) ?p' g"
      using assms(2) p' by (auto simp: inv_errs_def intro!: cas_ready_append)
    moreover have "cas_ready (heap s @ [[]]) ?p' ?g'"
      using p' by (simp add: cas_ready_def)
    ultimately have cas: "\<forall>g \<in> set ((gs s)[k := ?g']). cas_ready (heap s @ [[]]) ?p' g"
      by (intro ball_list_update)
    have lst: "mset (List (heap s @ [[]]) ?p') = mset (List (heap s) (errs s))"
      using assms(2) by (auto simp: List_def inv_errs_def nth_append split: option.splits)
    from assms(2) have "\<forall>a. ?p' = Some a \<longrightarrow> a < length (heap s @ [[]])"
      by (auto simp: inv_errs_def less_Suc_eq)
    moreover from assms(2) have "\<forall>xs \<in> set (heap s @ [[]]). None \<notin> set xs"
      by (auto simp: inv_errs_def)
    ultimately show ?thesis
      using AddInit(3) sum cas lst assms(2) unfolding inv_errs_def
      by (simp del: split_paired_All)
  next
    case (Load a)
    let ?x = "err (gs s ! k) # heap s ! a"
    let ?g' = "(gs s ! k)\<lparr>gpc := PAddCAS, current := a, newVal := length (heap s)\<rparr>"
    from assms(2) Load(2) have a: "a < length (heap s)" by (simp add: inv_errs_def)
    from wf Load(1) have f: "failed (gs s ! k)" by (simp add: wf_g_def)
    have sum: "sum_list (map added ((gs s)[k := ?g'])) = sum_list (map added (gs s))"
      using Load(1) by (intro sum_list_map_update_same[OF assms(4)]) (simp add: added_def)
    have "\<forall>g \<in> set (gs s). cas_ready (heap s @ [?x]) (errs s) g"
      using assms(2) by (auto simp: inv_errs_def intro!: cas_ready_append)
    moreover have "cas_ready (heap s @ [?x]) (errs s) ?g'"
      using a Load(2) by (simp add: cas_ready_def nth_append)
    ultimately have cas: "\<forall>g \<in> set ((gs s)[k := ?g']). cas_ready (heap s @ [?x]) (errs s) g"
      by (intro ball_list_update)
    have lst: "mset (List (heap s @ [?x]) (errs s)) = mset (List (heap s) (errs s))"
      using a Load(2) by (simp add: List_def nth_append)
    from assms(2) have "\<forall>b. errs s = Some b \<longrightarrow> b < length (heap s @ [?x])"
      by (auto simp: inv_errs_def less_Suc_eq)
    moreover from assms(2) a f have "\<forall>xs \<in> set (heap s @ [?x]). None \<notin> set xs"
      by (auto simp: inv_errs_def failed_def dest: nth_mem)
    ultimately show ?thesis
      using Load(3) sum cas lst assms(2) unfolding inv_errs_def
      by simp
  next
    case CAS_ok
    let ?g = "gs s ! k"
    let ?g' = "?g\<lparr>gpc := after_Add (kind ?g)\<rparr>"
    from wf CAS_ok(1) have f: "failed ?g" by (simp add: wf_g_def)
    from cr CAS_ok(1) have c: "current ?g < length (heap s)" "newVal ?g < length (heap s)"
      "heap s ! newVal ?g = err ?g # heap s ! current ?g"
      by (simp_all add: cas_ready_def)
    have ag: "added ?g = {#}" using CAS_ok(1) by (simp add: added_def)
    have ag': "added ?g' = {#err ?g#}" using f by (cases "kind ?g") (simp_all add: added_def)
    from sum_list_map_update[OF assms(4), of added ?g'] ag ag'
    have sum: "sum_list (map added ((gs s)[k := ?g'])) = sum_list (map added (gs s)) + {#err ?g#}"
      by simp
    have "\<forall>g \<in> set (gs s). cas_ready (heap s) (Some (newVal ?g)) g"
      using assms(2) by (auto simp: inv_errs_def cas_ready_def)
    moreover have "cas_ready (heap s) (Some (newVal ?g)) ?g'"
      by (cases "kind ?g") (simp_all add: cas_ready_def)
    ultimately have cas: "\<forall>g \<in> set ((gs s)[k := ?g']). cas_ready (heap s) (Some (newVal ?g)) g"
      by (intro ball_list_update)
    have lst: "mset (List (heap s) (Some (newVal ?g))) = mset (List (heap s) (errs s)) + {#err ?g#}"
      using c CAS_ok(2) by (simp add: List_def)
    show ?thesis
      using CAS_ok(3) sum cas lst c(2) assms(2) unfolding inv_errs_def
      by simp
  qed
qed

lemma inv_errs_step:
  assumes "step c t s = Some s'" "inv_errs s" "inv_gs c s"
  shows "inv_errs s'"
proof (cases t)
  case Main
  with assms show ?thesis by (auto intro: inv_errs_mstep)
next
  case (G k)
  with assms show ?thesis by (auto intro: inv_errs_gstep split: if_splits)
qed

lemma inv_sema_step:
  assumes "step c t s = Some s'" "inv_sema maxproc c s" "inv_gs c s"
  shows "inv_sema maxproc c s'"
proof (cases t)
  case Main
  with assms show ?thesis by (auto intro: inv_sema_mstep)
next
  case (G k)
  with assms show ?thesis by (auto intro: inv_sema_gstep split: if_splits)
qed

lemma inv_ret_start: "start maxproc c = Inr s0 \<Longrightarrow> inv_ret s0"
  by (erule start_cases) (auto simp: inv_ret_def returned_nil_def spawning_def Err_def)

lemma gstep_PExit: "gpc g = PExit \<Longrightarrow> gstep k g s = None"
  by (simp add: gstep_def)

lemma gstep_mpc: "gstep k g s = Some s' \<Longrightarrow> mpc s' = mpc s"
  by (erule gstepE) simp_all

lemma inv_ret_step:
  assumes "step c t s = Some s'" "inv_ret s" "inv_gs c s" "inv_wg c s"
  shows "inv_ret s'"
proof (cases t)
  case Main
  with assms(1) have "mstep c s = Some s'" by simp
  then show ?thesis
  proof (cases rule: mstepE)
    case (Spawn i)
    then show ?thesis by (simp add: inv_ret_def)
  next
    case (LoopEnd i)
    then show ?thesis by (simp add: inv_ret_def)
  next
    case Wait
    with assms(3,4) have "sum_list (map exited (gs s)) = int (length (gs s))"
      by (simp add: inv_gs_def inv_wg_def)
    then have "\<forall>g \<in> set (gs s). gpc g = PExit"
      by (blast intro: all_exited)
    with Wait show ?thesis by (simp add: inv_ret_def)
  qed
next
  case (G k)
  with assms(1) have k: "k < length (gs s)" and st: "gstep k (gs s ! k) s = Some s'"
    by (auto split: if_splits)
  show ?thesis
  proof (cases "\<exists>r. mpc s = MReturned r")
    case True
    with assms(2) k have "gpc (gs s ! k) = PExit" by (auto simp: inv_ret_def)
    with st show ?thesis by (simp add: gstep_PExit)
  next
    case False
    with gstep_mpc[OF st] show ?thesis by (simp add: inv_ret_def)
  qed
qed

lemma invs_start: "start maxproc c = Inr s0 \<Longrightarrow> invs maxproc c s0"
  by (simp add: invs_def inv_gs_start inv_trace_start inv_wg_start inv_sema_start
      inv_errs_start inv_ret_start)

lemma invs_step: "step c t s = Some s' \<Longrightarrow> invs maxproc c s \<Longrightarrow> invs maxproc c s'"
  by (simp add: invs_def inv_gs_step inv_trace_step inv_wg_step inv_sema_step
      inv_errs_step inv_ret_step)

lemma invs_run: "run c sched s = Some s' \<Longrightarrow> invs maxproc c s \<Longrightarrow> invs maxproc c s'"
proof (induction sched arbitrary: s)
  case Nil
  then show ?case by simp
next
  case (Cons t ts)
  from Cons.prems(1) obtain s1 where s1: "step c t s = Some s1" and rest: "run c ts s1 = Some s'"
    by (auto split: option.splits)
  from Cons.IH[OF rest invs_step[OF s1 Cons.prems(2)]] show ?case .
qed

lemma invs_reach:
  assumes "start maxproc c = Inr s0" "run c sched s0 = Some s"
  shows "invs maxproc c s"
  using invs_run[OF assms(2) invs_start[OF assms(1)]] .

section \<open>The dispatcher: what is called, in which order, what is returned\<close>

lemma count_list_proj:
  "count_list tr e = count_list (filter (\<lambda>x. unit_of x = unit_of e) tr) e"
  by (induction tr) auto

lemma count_Invoked_events_of:
  "count_list (events_of k g) (Invoked k' i)
     = (if k' = k \<and> i = idx g \<and> gpc g \<noteq> PAcquire \<and> gpc g \<noteq> PCall then 1 else 0)"
  by (cases "gpc g"; cases "kind g"; simp add: events_of_def recorded_def)

lemma count_Invoked:
  assumes "inv_trace s"
  shows "count_list (trace s) (Invoked k i)
     = (if k < length (gs s) \<and> i = idx (gs s ! k) \<and> gpc (gs s ! k) \<noteq> PAcquire
           \<and> gpc (gs s ! k) \<noteq> PCall then 1 else 0)"
proof -
  have "count_list (trace s) (Invoked k i)
      = count_list (filter (\<lambda>x. unit_of x = k) (trace s)) (Invoked k i)"
    using count_list_proj[of "trace s" "Invoked k i"] by simp
  also from assms have "filter (\<lambda>x. unit_of x = k) (trace s)
      = (if k < length (gs s) then events_of k (gs s ! k) else [])"
    by (simp add: inv_trace_def)
  finally show ?thesis by (simp add: count_Invoked_events_of)
qed

lemma gstep_None:
  "gstep k g s = None \<Longrightarrow> gpc g \<in> {PAcquire, PAddLoad, PRelease, PDeferAcquire, PExit}"
  by (cases "gpc g") (auto simp: gstep_def split: option.splits if_splits)

lemma mstep_None: "mstep c s = None \<Longrightarrow> mpc s = MWait \<and> wg s \<noteq> 0 \<or> (\<exists>r. mpc s = MReturned r)"
  by (cases "mpc s") (auto simp: mstep_def split: if_splits)

lemma quiescentD:
  assumes "quiescent c s"
  shows "mstep c s = None" and "k < length (gs s) \<Longrightarrow> gstep k (gs s ! k) s = None"
proof -
  from assms have *: "\<forall>t \<in> set (threads s). step c t s = None"
    by (simp add: quiescent_def list_all_iff)
  have "Main \<in> set (threads s)" by (simp add: threads_def)
  with * show "mstep c s = None" by fastforce
  assume k: "k < length (gs s)"
  then have "G k \<in> set (threads s)" by (simp add: threads_def)
  with * have "step c (G k) s = None" by blast
  with k show "gstep k (gs s ! k) s = None" by simp
qed

lemma run_returned_nil: "run c sched returned_nil = Some s \<Longrightarrow> s = returned_nil"
proof (cases sched)
  case Nil
  assume "run c sched returned_nil = Some s"
  with Nil show ?thesis by simp
next
  case (Cons t ts)
  assume r: "run c sched returned_nil = Some s"
  have "step c t returned_nil = None"
    by (cases t) (simp_all add: mstep_def returned_nil_def)
  with r Cons show ?thesis by simp
qed

lemma length_gs_le:
  assumes "inv_gs c s"
  shows "int (length (gs s)) \<le> units c"
  using assms by (auto simp: inv_gs_def split: mpc.splits)

lemma length_gs_eq:
  assumes "inv_gs c s" "mstep c s = None"
  shows "int (length (gs s)) = units c"
  using assms mstep_None[OF assms(2)] by (auto simp: inv_gs_def)



lemma sum_list_pos_ex:
  fixes f :: "'a \<Rightarrow> nat"
  shows "0 < sum_list (map f xs) \<Longrightarrow> \<exists>k < length xs. 0 < f (xs ! k)"
proof (induction xs)
  case Nil
  then show ?case by simp
next
  case (Cons x xs)
  show ?case
  proof (cases "0 < f x")
    case True
    then have "0 < length (x # xs) \<and> 0 < f ((x # xs) ! 0)" by simp
    then show ?thesis by blast
  next
    case False
    with Cons.prems have "0 < sum_list (map f xs)" by simp
    from Cons.IH[OF this] obtain k where "k < length xs" "0 < f (xs ! k)" by blast
    then have "Suc k < length (x # xs) \<and> 0 < f ((x # xs) ! Suc k)" by simp
    then show ?thesis by blast
  qed
qed

lemma not_all_exited:
  assumes "sum_list (map exited xs) \<noteq> int (length xs)"
  shows "\<exists>k < length xs. gpc (xs ! k) \<noteq> PExit"
proof (rule ccontr)
  assume "\<not> ?thesis"
  then have "\<forall>x \<in> set xs. gpc x = PExit" by (auto simp: in_set_conv_nth)
  then have "sum_list (map exited xs) = int (length xs)"
    by (induction xs) (auto simp: exited_def)
  with assms show False by simp
qed

text \<open>A goroutine of \<^verbatim>\<open>doOp\<close> that holds the semaphore can always step.\<close>

lemma holder_steps:
  assumes "invs maxproc c s" "kind_of c = DoOp" "k < length (gs s)" "0 < holds (gs s ! k)"
  shows "gstep k (gs s ! k) s \<noteq> None"
proof
  assume stuck: "gstep k (gs s ! k) s = None"
  let ?g = "gs s ! k"
  from assms(1,3) have wf: "wf_g c k ?g" and cr: "cas_ready (heap s) (errs s) ?g"
    and q: "queued (sema s) = sum_list (map holds (gs s))"
    by (simp_all add: invs_def inv_gs_def inv_errs_def inv_sema_def)
  from wf assms(2) have kd: "kind ?g = DoOp" by (simp add: wf_g_def)
  from gstep_None[OF stuck] assms(4) kd have "gpc ?g = PAddLoad \<or> gpc ?g = PRelease"
    by (auto simp: holds_def)
  then show False
  proof
    assume pc: "gpc ?g = PAddLoad"
    with cr obtain a where "errs s = Some a" by (auto simp: cas_ready_def)
    with pc stuck show False by (simp add: gstep_def)
  next
    assume pc: "gpc ?g = PRelease"
    from sum_list_map_update_nat(2)[OF assms(3), of holds] assms(4) q
    have "0 < queued (sema s)" by simp
    with pc stuck show False by (simp add: gstep_def Release_def chan_recv_def)
  qed
qed

text \<open>\<^verbatim>\<open>Funcs.Do\<close> cannot hang: where no thread can step, the call has returned.\<close>

lemma Funcs_Do_no_deadlock:
  assumes "invs maxproc c s" "kind_of c = DoOp" "quiescent c s"
  shows "\<exists>r. mpc s = MReturned r"
proof (rule ccontr)
  assume nr: "\<not> ?thesis"
  from assms(1) have gs: "inv_gs c s" and wg: "inv_wg c s" and sem: "inv_sema maxproc c s"
    by (simp_all add: invs_def)
  from mstep_None[OF quiescentD(1)[OF assms(3)]] nr have "wg s \<noteq> 0" by blast
  with wg length_gs_eq[OF gs quiescentD(1)[OF assms(3)]]
  have "sum_list (map exited (gs s)) \<noteq> int (length (gs s))"
    by (simp add: inv_wg_def)
  from not_all_exited[OF this] obtain k where k: "k < length (gs s)" "gpc (gs s ! k) \<noteq> PExit"
    by blast
  let ?g = "gs s ! k"
  from gs k(1) have wf: "wf_g c k ?g" by (simp add: inv_gs_def)
  with assms(2) have kd: "kind ?g = DoOp" by (simp add: wf_g_def)
  have stuck: "gstep k ?g s = None" by (rule quiescentD(2)[OF assms(3) k(1)])
  have "holds ?g = 0"
    using holder_steps[OF assms(1,2) k(1)] stuck by auto
  with gstep_None[OF stuck] k(2) kd wf have pc: "gpc ?g = PAcquire"
    by (auto simp: holds_def wf_g_def split: if_splits)
  with stuck have full: "\<not> queued (sema s) < capacity (sema s)"
    by (auto simp: gstep_def AcquireRelease_def chan_send_def split: if_splits)
  from k(1) length_gs_eq[OF gs quiescentD(1)[OF assms(3)]] have "units c \<noteq> 0" by auto
  with sem have "0 < capacity (sema s)" by (simp add: inv_sema_def)
  with full sem have "0 < sum_list (map holds (gs s))" by (simp add: inv_sema_def)
  from sum_list_pos_ex[OF this] obtain j where j: "j < length (gs s)" "0 < holds (gs s ! j)"
    by blast
  from holder_steps[OF assms(1,2) j] quiescentD(2)[OF assms(3) j(1)] show False by simp
qed

lemma all_exited_events:
  assumes "inv_gs c s" "inv_trace s" "inv_ret s" "mpc s = MReturned r" "kind_of c = DoOp"
    "k < length (gs s)"
  shows "filter (\<lambda>e. unit_of e = k) (trace s) = doOp_order k (task_of c k (int k) \<noteq> None)"
proof -
  let ?g = "gs s ! k"
  from assms(1,6) have wf: "wf_g c k ?g" by (simp add: inv_gs_def)
  from assms(3,4,6) have pc: "gpc ?g = PExit" by (simp add: inv_ret_def)
  from assms(2,6) have "filter (\<lambda>e. unit_of e = k) (trace s) = events_of k ?g"
    by (simp add: inv_trace_def)
  also from wf pc assms(5) have "\<dots> = doOp_order k (task_of c k (int k) \<noteq> None)"
    by (simp add: events_of_def doOp_order_def recorded_def failed_def wf_g_def)
  finally show ?thesis .
qed

lemma events_prefix_doOp:
  assumes "wf_g c k g" "kind_of c = DoOp"
  shows "prefix (events_of k g) (doOp_order k (task_of c k (int k) \<noteq> None))"
  using assms
  by (cases "gpc g")
    (auto simp: events_of_def doOp_order_def recorded_def failed_def wf_g_def)

text \<open>
  C1, as the code has it for \<^verbatim>\<open>Funcs.Do\<close>. In every reachable state of a call
  \<^verbatim>\<open>fns.Do(...)\<close> the events of each unit \<open>k\<close> are an initial part of: semaphore
  acquired, task called with index \<open>k\<close>, task returned, error stored (when the task
  returned one), semaphore released, \<^verbatim>\<open>wg.Done()\<close>. The release comes after the error
  is stored, not before. When no thread can step any more the call has returned and
  every unit has gone through the whole sequence.
\<close>

theorem Funcs_Do_unit_order:
  assumes "start maxproc (Funcs_Do fns mp) = Inr s0"
    and "run (Funcs_Do fns mp) sched s0 = Some s"
  shows "(\<forall>k. prefix (filter (\<lambda>e. unit_of e = k) (trace s))
                (doOp_order k ((fns ! k) (int k) \<noteq> None)))
    \<and> (quiescent (Funcs_Do fns mp) s \<longrightarrow>
          (\<forall>k < length fns. filter (\<lambda>e. unit_of e = k) (trace s)
                = doOp_order k ((fns ! k) (int k) \<noteq> None)))"
proof -
  let ?c = "Funcs_Do fns mp"
  note I = invs_reach[OF assms]
  then have gs: "inv_gs ?c s" and tr: "inv_trace s" and rt: "inv_ret s"
    by (simp_all add: invs_def)
  have 1: "prefix (filter (\<lambda>e. unit_of e = k) (trace s))
                (doOp_order k ((fns ! k) (int k) \<noteq> None))" for k
  proof (cases "k < length (gs s)")
    case True
    with gs have "wf_g ?c k (gs s ! k)" by (simp add: inv_gs_def)
    from events_prefix_doOp[OF this] True tr show ?thesis by (simp add: inv_trace_def)
  next
    case False
    with tr show ?thesis by (simp add: inv_trace_def)
  qed
  have 2: "filter (\<lambda>e. unit_of e = k) (trace s) = doOp_order k ((fns ! k) (int k) \<noteq> None)"
    if q: "quiescent ?c s" and k: "k < length fns" for k
  proof -
    from Funcs_Do_no_deadlock[OF I _ q] obtain r where r: "mpc s = MReturned r" by auto
    from length_gs_eq[OF gs quiescentD(1)[OF q]] k have "k < length (gs s)" by simp
    from all_exited_events[OF gs tr rt r _ this] show ?thesis by simp
  qed
  from 1 2 show ?thesis by blast
qed

theorem Funcs_Do_unit_order_witness:
  "start 1 Funcs_Do_1 = Inr (spawning 1 \<lparr>capacity = 1, queued = 0\<rparr>)
   \<and> run Funcs_Do_1 sched_Funcs_Do_1 (spawning 1 \<lparr>capacity = 1, queued = 0\<rparr>) \<noteq> None
   \<and> quiescent Funcs_Do_1
        (the (run Funcs_Do_1 sched_Funcs_Do_1 (spawning 1 \<lparr>capacity = 1, queued = 0\<rparr>)))
   \<and> filter (\<lambda>e. unit_of e = 0)
        (trace (the (run Funcs_Do_1 sched_Funcs_Do_1 (spawning 1 \<lparr>capacity = 1, queued = 0\<rparr>))))
      = [Acquired 0, Invoked 0 0, Returned 0, Recorded 0, Released 0, Signaled 0]"
proof -
  let ?init = "spawning 1 \<lparr>capacity = 1, queued = 0\<rparr> :: int state"
  let ?fin = "the (run Funcs_Do_1 sched_Funcs_Do_1 ?init)"
  have a: "start 1 (Funcs_Do [fails] [1]) = Inr ?init"
    by (simp add: Funcs_Do_start_def max_parallel_def NewSemaphore_def)
  have ne: "run Funcs_Do_1 sched_Funcs_Do_1 ?init \<noteq> None"
    by code_simp
  then have "run Funcs_Do_1 sched_Funcs_Do_1 ?init = Some ?fin"
    by (rule option.collapse[symmetric])
  then have b: "run (Funcs_Do [fails] [1]) sched_Funcs_Do_1 ?init = Some ?fin"
    by (simp only: Funcs_Do_1_def)
  have q: "quiescent (Funcs_Do [fails] [1]) ?fin"
    unfolding Funcs_Do_1_def[symmetric] by code_simp
  from Funcs_Do_unit_order[OF a b] q
  have all: "\<forall>k < length [fails]. filter (\<lambda>e. unit_of e = k) (trace ?fin)
                = doOp_order k (([fails] ! k) (int k) \<noteq> None)"
    by blast
  from all[rule_format, of 0]
  have "filter (\<lambda>e. unit_of e = 0) (trace ?fin)
      = [Acquired 0, Invoked 0 0, Returned 0, Recorded 0, Released 0, Signaled 0]"
    by (simp add: doOp_order_def fails_def)
  with a ne q show ?thesis by (simp add: Funcs_Do_1_def)
qed

text \<open>
  C1 as stated fails on both paths. In the complete run of \<^verbatim>\<open>Funcs{fails}.Do(1)\<close> the
  error is stored before the semaphore is released. In the complete run of
  \<^verbatim>\<open>fails.Do(1, 1)\<close> the task is called and its error stored before the semaphore is
  acquired, and the semaphore is never released.
\<close>

theorem unit_order_counterexample:
  "run Funcs_Do_1 sched_Funcs_Do_1 (spawning 1 \<lparr>capacity = 1, queued = 0\<rparr>) \<noteq> None
   \<and> trace (the (run Funcs_Do_1 sched_Funcs_Do_1 (spawning 1 \<lparr>capacity = 1, queued = 0\<rparr>)))
      = [Acquired 0, Invoked 0 0, Returned 0, Recorded 0, Released 0, Signaled 0]
   \<and> run Func_Do_1 sched_Func_Do_1 (spawning 1 \<lparr>capacity = 1, queued = 0\<rparr>) \<noteq> None
   \<and> trace (the (run Func_Do_1 sched_Func_Do_1 (spawning 1 \<lparr>capacity = 1, queued = 0\<rparr>)))
      = [Invoked 0 0, Returned 0, Recorded 0, Acquired 0, Signaled 0]
   \<and> start 1 Funcs_Do_1 = Inr (spawning 1 \<lparr>capacity = 1, queued = 0\<rparr>)
   \<and> start 1 Func_Do_1 = Inr (spawning 1 \<lparr>capacity = 1, queued = 0\<rparr>)"
proof -
  have "start 1 Funcs_Do_1 = Inr (spawning 1 \<lparr>capacity = 1, queued = 0\<rparr>)"
    "start 1 Func_Do_1 = Inr (spawning 1 \<lparr>capacity = 1, queued = 0\<rparr>)"
    by (simp_all add: Funcs_Do_1_def Func_Do_1_def Funcs_Do_start_def Func_Do_start_def
        max_parallel_def NewSemaphore_def)
  moreover have
    "run Funcs_Do_1 sched_Funcs_Do_1 (spawning 1 \<lparr>capacity = 1, queued = 0\<rparr>) \<noteq> None"
    "trace (the (run Funcs_Do_1 sched_Funcs_Do_1 (spawning 1 \<lparr>capacity = 1, queued = 0\<rparr>)))
      = [Acquired 0, Invoked 0 0, Returned 0, Recorded 0, Released 0, Signaled 0]"
    "run Func_Do_1 sched_Func_Do_1 (spawning 1 \<lparr>capacity = 1, queued = 0\<rparr>) \<noteq> None"
    "trace (the (run Func_Do_1 sched_Func_Do_1 (spawning 1 \<lparr>capacity = 1, queued = 0\<rparr>)))
      = [Invoked 0 0, Returned 0, Recorded 0, Acquired 0, Signaled 0]"
    by code_simp+
  ultimately show ?thesis by blast
qed

lemma Funcs_Do_once:
  assumes "start maxproc (Funcs_Do fns mp) = Inr s0"
    and "run (Funcs_Do fns mp) sched s0 = Some s"
  shows "count_list (trace s) (Invoked k i) \<le> 1"
    and "Invoked k i \<in> set (trace s) \<Longrightarrow> i = int k \<and> k < length fns"
    and "k < length (gs s) \<Longrightarrow> task (gs s ! k) = fns ! k \<and> idx (gs s ! k) = int k"
    and "quiescent (Funcs_Do fns mp) s \<Longrightarrow> \<exists>r. mpc s = MReturned r"
    and "quiescent (Funcs_Do fns mp) s \<Longrightarrow> k < length fns \<Longrightarrow>
           count_list (trace s) (Invoked k (int k)) = 1"
    and "fns = [] \<Longrightarrow> trace s = [] \<and> mpc s = MReturned None"
proof -
  let ?c = "Funcs_Do fns mp"
  note I = invs_reach[OF assms]
  then have gs: "inv_gs ?c s" and tr: "inv_trace s" and rt: "inv_ret s"
    by (simp_all add: invs_def)
  have wf: "wf_g ?c j (gs s ! j)" if "j < length (gs s)" for j
    using gs that by (simp add: inv_gs_def)
  show "count_list (trace s) (Invoked k i) \<le> 1"
    by (simp add: count_Invoked[OF tr])
  show "i = int k \<and> k < length fns" if "Invoked k i \<in> set (trace s)"
  proof -
    from that have "count_list (trace s) (Invoked k i) \<noteq> 0"
      by (simp add: count_list_0_iff)
    then have k: "k < length (gs s)" and i: "i = idx (gs s ! k)"
      by (auto simp: count_Invoked[OF tr] split: if_splits)
    from wf[OF k] i have "i = int k" by (simp add: wf_g_def)
    with k length_gs_le[OF gs] show ?thesis by simp
  qed
  show "task (gs s ! k) = fns ! k \<and> idx (gs s ! k) = int k" if "k < length (gs s)"
    using wf[OF that] by (simp add: wf_g_def)
  show ret: "\<exists>r. mpc s = MReturned r" if q: "quiescent ?c s"
    using Funcs_Do_no_deadlock[OF I _ q] by simp
  show "count_list (trace s) (Invoked k (int k)) = 1"
    if q: "quiescent ?c s" and k: "k < length fns"
  proof -
    from ret[OF q] obtain r where r: "mpc s = MReturned r" by blast
    from length_gs_eq[OF gs quiescentD(1)[OF q]] k have kl: "k < length (gs s)" by simp
    with rt r have "gpc (gs s ! k) = PExit" by (simp add: inv_ret_def)
    with kl wf[OF kl] show ?thesis by (simp add: count_Invoked[OF tr] wf_g_def)
  qed
  show "trace s = [] \<and> mpc s = MReturned None" if "fns = []"
  proof -
    from that assms(1) have "s0 = returned_nil" by (simp add: Funcs_Do_start_def)
    with assms(2) have "s = returned_nil" by (simp add: run_returned_nil)
    then show ?thesis by (simp add: returned_nil_def)
  qed
qed

text \<open>
  C6. In every state a call \<^verbatim>\<open>fns.Do(...)\<close> can reach, goroutine \<open>k\<close> runs the task
  \<^verbatim>\<open>fns[k]\<close> with index \<open>k\<close> and has called it at most once. Where no thread can step
  any more the call has returned and every task of the set has been called exactly
  once. The call does not change \<^verbatim>\<open>fns\<close>, so a second call on the same set does the
  same again: over two completed calls every task has been called twice. On the empty
  set nothing is called and \<^verbatim>\<open>nil\<close> is returned.
\<close>

theorem Funcs_Do_runs_every_task_once:
  assumes "start maxproc (Funcs_Do fns mp) = Inr s0"
    and "run (Funcs_Do fns mp) sched s0 = Some s"
    and "start maxproc' (Funcs_Do fns mp') = Inr s0'"
    and "run (Funcs_Do fns mp') sched' s0' = Some s'"
  shows "(\<forall>k i. count_list (trace s) (Invoked k i) \<le> 1
            \<and> (Invoked k i \<in> set (trace s) \<longrightarrow> i = int k \<and> k < length fns))
    \<and> (\<forall>k < length (gs s). task (gs s ! k) = fns ! k \<and> idx (gs s ! k) = int k)
    \<and> (quiescent (Funcs_Do fns mp) s \<longrightarrow>
          (\<exists>r. mpc s = MReturned r)
          \<and> (\<forall>k < length fns. count_list (trace s) (Invoked k (int k)) = 1))
    \<and> (quiescent (Funcs_Do fns mp) s \<and> quiescent (Funcs_Do fns mp') s' \<longrightarrow>
          (\<forall>k < length fns. count_list (trace s @ trace s') (Invoked k (int k)) = 2))
    \<and> (fns = [] \<longrightarrow> trace s = [] \<and> mpc s = MReturned None)"
proof -
  note A = Funcs_Do_once[OF assms(1,2)]
  note B = Funcs_Do_once[OF assms(3,4)]
  have "count_list (trace s @ trace s') (Invoked k (int k)) = 2"
    if "quiescent (Funcs_Do fns mp) s" "quiescent (Funcs_Do fns mp') s'" "k < length fns" for k
    using A(5)[OF that(1,3)] B(5)[OF that(2,3)] by simp
  with A show ?thesis by blast
qed

theorem Funcs_Do_runs_every_task_once_witness:
  "start 1 Funcs_Do_2 = Inr (spawning 2 \<lparr>capacity = 1, queued = 0\<rparr>)
   \<and> run Funcs_Do_2 sched_Funcs_Do_2 (spawning 2 \<lparr>capacity = 1, queued = 0\<rparr>) \<noteq> None
   \<and> quiescent Funcs_Do_2
        (the (run Funcs_Do_2 sched_Funcs_Do_2 (spawning 2 \<lparr>capacity = 1, queued = 0\<rparr>)))
   \<and> mpc (the (run Funcs_Do_2 sched_Funcs_Do_2 (spawning 2 \<lparr>capacity = 1, queued = 0\<rparr>)))
      = MReturned (Some [1])
   \<and> count_list
        (trace (the (run Funcs_Do_2 sched_Funcs_Do_2 (spawning 2 \<lparr>capacity = 1, queued = 0\<rparr>))))
        (Invoked 0 0) = 1
   \<and> count_list
        (trace (the (run Funcs_Do_2 sched_Funcs_Do_2 (spawning 2 \<lparr>capacity = 1, queued = 0\<rparr>))))
        (Invoked 1 1) = 1
   \<and> count_list
        (trace (the (run Funcs_Do_2 sched_Funcs_Do_2 (spawning 2 \<lparr>capacity = 1, queued = 0\<rparr>)))
         @ trace (the (run Funcs_Do_2 sched_Funcs_Do_2 (spawning 2 \<lparr>capacity = 1, queued = 0\<rparr>))))
        (Invoked 1 1) = 2"
proof -
  let ?init = "spawning 2 \<lparr>capacity = 1, queued = 0\<rparr> :: int state"
  let ?fin = "the (run Funcs_Do_2 sched_Funcs_Do_2 ?init)"
  have a: "start 1 (Funcs_Do [succeeds, fails] [1]) = Inr ?init"
    by (simp add: Funcs_Do_start_def max_parallel_def NewSemaphore_def)
  have ne: "run Funcs_Do_2 sched_Funcs_Do_2 ?init \<noteq> None"
    by code_simp
  then have "run Funcs_Do_2 sched_Funcs_Do_2 ?init = Some ?fin"
    by (rule option.collapse[symmetric])
  then have b: "run (Funcs_Do [succeeds, fails] [1]) sched_Funcs_Do_2 ?init = Some ?fin"
    by (simp only: Funcs_Do_2_def)
  have q: "quiescent (Funcs_Do [succeeds, fails] [1]) ?fin"
    unfolding Funcs_Do_2_def[symmetric] by code_simp
  have r: "mpc ?fin = MReturned (Some [1])"
    by code_simp
  note T = Funcs_Do_runs_every_task_once[OF a b a b]
  from T q
  have one: "\<forall>k < length [succeeds, fails]. count_list (trace ?fin) (Invoked k (int k)) = 1"
    and two: "\<forall>k < length [succeeds, fails].
                count_list (trace ?fin @ trace ?fin) (Invoked k (int k)) = 2"
    by blast+
  from one[rule_format, of 0] one[rule_format, of 1] two[rule_format, of 1]
  have "count_list (trace ?fin) (Invoked 0 0) = 1" "count_list (trace ?fin) (Invoked 1 1) = 1"
    "count_list (trace ?fin @ trace ?fin) (Invoked 1 1) = 2"
    by simp_all
  with a ne q r show ?thesis by (simp add: Funcs_Do_2_def)
qed

lemma Combine_no_nil:
  assumes "None \<notin> set xs"
  shows "Combine xs = (if xs = [] then None else Some (map the xs))"
    and "map Some (map the xs) = xs"
proof -
  from assms have "\<forall>x \<in> set xs. x \<noteq> None" by metis
  then have f: "filter (\<lambda>x. x \<noteq> None) xs = xs"
    by (rule filter_True)
  then show "Combine xs = (if xs = [] then None else Some (map the xs))"
    by (simp add: Combine_def)
  from assms show "map Some (map the xs) = xs"
    by (induction xs) (auto intro: sym)
qed

lemma Err_eq_Combine_List:
  "Err h p = Combine (List h p)"
  by (cases p) (simp_all add: Err_def List_def Combine_def)

lemma sum_holds_exited_DoOne:
  "\<forall>g \<in> set xs. gpc g = PExit \<and> kind g = DoOne \<Longrightarrow> sum_list (map holds xs) = length xs"
  by (induction xs) (auto simp: holds_def)

lemma executing_le_holds:
  "\<forall>g \<in> set xs. kind g = DoOp \<Longrightarrow>
     length (filter (\<lambda>g. gpc g = PInTask) xs) \<le> sum_list (map holds xs)"
  by (induction xs) (auto simp: holds_def)

text \<open>
  For \<^verbatim>\<open>Funcs.Do\<close> the cap holds: never more task bodies executing than the capacity of
  the semaphore.
\<close>

lemma Funcs_Do_respects_cap:
  assumes "start maxproc (Funcs_Do fns mp) = Inr s0"
    and "run (Funcs_Do fns mp) sched s0 = Some s"
  shows "executing s \<le> capacity (sema s)"
    and "fns \<noteq> [] \<Longrightarrow> int (capacity (sema s)) = max_parallel maxproc mp"
proof -
  let ?c = "Funcs_Do fns mp"
  from invs_reach[OF assms] have gs: "inv_gs ?c s" and sem: "inv_sema maxproc ?c s"
    by (simp_all add: invs_def)
  have "\<forall>g \<in> set (gs s). kind g = DoOp"
    using gs by (auto simp: inv_gs_def wf_g_def in_set_conv_nth)
  from executing_le_holds[OF this] sem show "executing s \<le> capacity (sema s)"
    by (simp add: executing_def inv_sema_def)
  show "int (capacity (sema s)) = max_parallel maxproc mp" if "fns \<noteq> []"
    using sem that by (simp add: inv_sema_def)
qed

text \<open>
  C2 fails for \<^verbatim>\<open>Func.Do\<close>. \<^verbatim>\<open>doOne\<close> defers the call \<^verbatim>\<open>sema.AcquireRelease()\<close> itself, so
  every goroutine takes a token when it ends and never gives it back. With more units
  than the cap, no run of \<^verbatim>\<open>fn.Do(count, ...)\<close> ever returns: wherever no thread can step
  the caller is blocked in \<^verbatim>\<open>wg.Wait()\<close> with a counter that is not zero.
\<close>

theorem Func_Do_never_returns_beyond_cap:
  assumes "start maxproc (Func_Do fn cnt mp) = Inr s0"
    and "run (Func_Do fn cnt mp) sched s0 = Some s"
    and "0 < cnt" and "max_parallel maxproc mp < cnt"
  shows "(\<forall>r. mpc s \<noteq> MReturned r)
    \<and> (quiescent (Func_Do fn cnt mp) s \<longrightarrow> mpc s = MWait \<and> wg s \<noteq> 0)"
proof -
  let ?c = "Func_Do fn cnt mp"
  from invs_reach[OF assms(1,2)] have gs: "inv_gs ?c s" and sem: "inv_sema maxproc ?c s"
    and rt: "inv_ret s"
    by (simp_all add: invs_def)
  have nr: "mpc s \<noteq> MReturned r" for r
  proof
    assume r: "mpc s = MReturned r"
    with rt have ex: "\<forall>g \<in> set (gs s). gpc g = PExit" by (simp add: inv_ret_def)
    have "\<forall>g \<in> set (gs s). kind g = DoOne"
      using gs by (auto simp: inv_gs_def wf_g_def in_set_conv_nth)
    with ex have "sum_list (map holds (gs s)) = length (gs s)"
      by (intro sum_holds_exited_DoOne) simp
    moreover from gs r have "int (length (gs s)) = cnt" by (simp add: inv_gs_def)
    moreover from sem assms(3) have "queued (sema s) = sum_list (map holds (gs s))"
      "queued (sema s) \<le> capacity (sema s)"
      "capacity (sema s) = nat (max_parallel maxproc mp)"
      by (simp_all add: inv_sema_def)
    ultimately show False using assms(3,4) by linarith
  qed
  moreover have "mpc s = MWait \<and> wg s \<noteq> 0" if "quiescent ?c s"
    using mstep_None[OF quiescentD(1)[OF that]] nr by blast
  ultimately show ?thesis by blast
qed

theorem Func_Do_never_returns_beyond_cap_witness:
  "start 8 Func_Do_2_cap_1 = Inr (spawning 2 \<lparr>capacity = 1, queued = 0\<rparr>)
   \<and> run Func_Do_2_cap_1 sched_deadlock (spawning 2 \<lparr>capacity = 1, queued = 0\<rparr>) \<noteq> None
   \<and> max_parallel 8 [1] < 2
   \<and> quiescent Func_Do_2_cap_1
        (the (run Func_Do_2_cap_1 sched_deadlock (spawning 2 \<lparr>capacity = 1, queued = 0\<rparr>)))
   \<and> mpc (the (run Func_Do_2_cap_1 sched_deadlock (spawning 2 \<lparr>capacity = 1, queued = 0\<rparr>)))
      = MWait
   \<and> wg (the (run Func_Do_2_cap_1 sched_deadlock (spawning 2 \<lparr>capacity = 1, queued = 0\<rparr>)))
      \<noteq> 0
   \<and> map gpc
        (gs (the (run Func_Do_2_cap_1 sched_deadlock (spawning 2 \<lparr>capacity = 1, queued = 0\<rparr>))))
      = [PExit, PDeferAcquire]"
proof -
  let ?init = "spawning 2 \<lparr>capacity = 1, queued = 0\<rparr> :: int state"
  let ?fin = "the (run Func_Do_2_cap_1 sched_deadlock ?init)"
  have a: "start 8 (Func_Do succeeds 2 [1]) = Inr ?init"
    by (simp add: Func_Do_start_def max_parallel_def NewSemaphore_def)
  have ne: "run Func_Do_2_cap_1 sched_deadlock ?init \<noteq> None"
    by code_simp
  then have "run Func_Do_2_cap_1 sched_deadlock ?init = Some ?fin"
    by (rule option.collapse[symmetric])
  then have b: "run (Func_Do succeeds 2 [1]) sched_deadlock ?init = Some ?fin"
    by (simp only: Func_Do_2_cap_1_def)
  have c: "(0::int) < 2" by simp
  have d: "max_parallel 8 [1] < 2" by (simp add: max_parallel_def)
  have q: "quiescent (Func_Do succeeds 2 [1]) ?fin"
    unfolding Func_Do_2_cap_1_def[symmetric] by code_simp
  have g: "map gpc (gs ?fin) = [PExit, PDeferAcquire]"
    by code_simp
  from Func_Do_never_returns_beyond_cap[OF a b c d] q
  have "mpc ?fin = MWait \<and> wg ?fin \<noteq> 0" by blast
  with a ne d q g show ?thesis by (simp add: Func_Do_2_cap_1_def)
qed

text \<open>
  C3 fails for \<^verbatim>\<open>Func.Do\<close>. \<^verbatim>\<open>doOne\<close> calls the task before it touches the semaphore:
  in a run of \<^verbatim>\<open>fn.Do(2, 1)\<close> both task bodies execute at once under a cap of 1.
\<close>

theorem Func_Do_exceeds_cap:
  "start 8 Func_Do_2_cap_1 = Inr (spawning 2 \<lparr>capacity = 1, queued = 0\<rparr>)
   \<and> run Func_Do_2_cap_1 sched_overlap (spawning 2 \<lparr>capacity = 1, queued = 0\<rparr>) \<noteq> None
   \<and> executing (the (run Func_Do_2_cap_1 sched_overlap (spawning 2 \<lparr>capacity = 1, queued = 0\<rparr>)))
      = 2
   \<and> capacity
        (sema (the (run Func_Do_2_cap_1 sched_overlap (spawning 2 \<lparr>capacity = 1, queued = 0\<rparr>))))
      = 1
   \<and> max_parallel 8 [1] = 1"
proof -
  have "start 8 Func_Do_2_cap_1 = Inr (spawning 2 \<lparr>capacity = 1, queued = 0\<rparr>)"
    by (simp add: Func_Do_2_cap_1_def Func_Do_start_def max_parallel_def NewSemaphore_def)
  moreover have "max_parallel 8 [1] = 1"
    by (simp add: max_parallel_def)
  moreover have
    "run Func_Do_2_cap_1 sched_overlap (spawning 2 \<lparr>capacity = 1, queued = 0\<rparr>) \<noteq> None"
    "executing (the (run Func_Do_2_cap_1 sched_overlap (spawning 2 \<lparr>capacity = 1, queued = 0\<rparr>)))
      = 2"
    "capacity
        (sema (the (run Func_Do_2_cap_1 sched_overlap (spawning 2 \<lparr>capacity = 1, queued = 0\<rparr>))))
      = 1"
    by code_simp+
  ultimately show ?thesis by blast
qed

lemma weight_bounds: "0 \<le> weight p g" "weight p g \<le> 10" "weight p' g \<le> weight p g + 2"
  by (cases "gpc g"; simp add: weight_def)+

lemma weight_from_nil: "weight p' g \<le> weight None g"
  by (cases "gpc g"; simp add: weight_def)

lemma pending_bounds: "0 \<le> pending g" "pending g \<le> 1"
  by (simp_all add: pending_def)

lemma sum_weight_change:
  "sum_list (map (weight p') xs) \<le> sum_list (map (weight p) xs) + 2 * int (length xs)"
proof (induction xs)
  case Nil
  then show ?case by simp
next
  case (Cons x xs)
  with weight_bounds(3)[of p' x p] show ?case by simp
qed

lemma sum_weight_from_nil:
  "sum_list (map (weight p') xs) \<le> sum_list (map (weight None) xs)"
proof (induction xs)
  case Nil
  then show ?case by simp
next
  case (Cons x xs)
  with weight_from_nil[of p' x] show ?case by simp
qed

lemma sum_nonneg: "(\<And>x. 0 \<le> f x) \<Longrightarrow> 0 \<le> sum_list (map f xs)" for f :: "'a \<Rightarrow> int"
  by (induction xs) simp_all

lemma steps_left_mstep:
  assumes "mstep c s = Some s'" "inv_gs c s"
  shows "steps_left c s' < steps_left c s"
  using assms(1)
proof (cases rule: mstepE)
  case (Spawn i)
  have "weight (errs s) (spawn c i) \<le> 10" by (rule weight_bounds)
  moreover have "pending (spawn c i) \<le> 1" by (rule pending_bounds)
  moreover from pending_bounds(2)[of "spawn c i"] length_gs_le[OF assms(2)] Spawn(1,2) assms(2)
  have "(2 * units c + 1) * pending (spawn c i) \<le> 2 * units c + 1"
    by (simp add: pending_def)
  ultimately show ?thesis
    using Spawn by (simp add: steps_left_def algebra_simps)
next
  case (LoopEnd i)
  with assms(2) have "units c - int (length (gs s)) = 0" by (auto simp: inv_gs_def)
  with LoopEnd show ?thesis by (simp add: steps_left_def)
next
  case Wait
  then show ?thesis by (simp add: steps_left_def)
qed

lemma steps_left_diff:
  assumes "mpc s' = mpc s" "length (gs s') = length (gs s)"
  shows "steps_left c s' - steps_left c s
     = (sum_list (map (weight (errs s')) (gs s')) - sum_list (map (weight (errs s)) (gs s)))
       + (2 * units c + 1) * (sum_list (map pending (gs s')) - sum_list (map pending (gs s)))"
proof -
  have "(case mpc s' of
        MLoop i \<Rightarrow> (units c - int (length (gs s'))) * (12 + 2 * units c) + 2
      | MWait \<Rightarrow> 1 | MReturned r \<Rightarrow> 0)
    = (case mpc s of
        MLoop i \<Rightarrow> (units c - int (length (gs s))) * (12 + 2 * units c) + 2
      | MWait \<Rightarrow> 1 | MReturned r \<Rightarrow> 0)"
    using assms by (cases "mpc s") simp_all
  then show ?thesis
    unfolding steps_left_def by (simp add: algebra_simps)
qed

lemma steps_left_local:
  assumes "k < length (gs s)" "mpc s' = mpc s" "gs s' = (gs s)[k := gs s' ! k]"
    "errs s' = errs s" "weight (errs s) (gs s' ! k) < weight (errs s) (gs s ! k)"
    "pending (gs s' ! k) \<le> pending (gs s ! k)" "0 \<le> units c"
  shows "steps_left c s' < steps_left c s"
proof -
  let ?g' = "gs s' ! k"
  from assms(3) have len: "length (gs s') = length (gs s)"
    by (metis length_list_update)
  have w: "sum_list (map (weight (errs s)) (gs s'))
      = sum_list (map (weight (errs s)) (gs s)) - weight (errs s) (gs s ! k)
        + weight (errs s) ?g'"
    using sum_list_map_update_int[OF assms(1), of "weight (errs s)" ?g'] assms(3) by simp
  have p: "sum_list (map pending (gs s'))
      = sum_list (map pending (gs s)) - pending (gs s ! k) + pending ?g'"
    using sum_list_map_update_int[OF assms(1), of pending ?g'] assms(3) by simp
  from p assms(6) have "sum_list (map pending (gs s')) \<le> sum_list (map pending (gs s))"
    by simp
  with assms(7) have "(2 * units c + 1) * sum_list (map pending (gs s'))
      \<le> (2 * units c + 1) * sum_list (map pending (gs s))"
    by (intro mult_left_mono) simp_all
  moreover have "(case mpc s' of
        MLoop i \<Rightarrow> (units c - int (length (gs s'))) * (12 + 2 * units c) + 2
      | MWait \<Rightarrow> 1 | MReturned r \<Rightarrow> 0)
    = (case mpc s of
        MLoop i \<Rightarrow> (units c - int (length (gs s))) * (12 + 2 * units c) + 2
      | MWait \<Rightarrow> 1 | MReturned r \<Rightarrow> 0)"
    using assms(2) len by (cases "mpc s") simp_all
  ultimately show ?thesis
    using w assms(4,5) unfolding steps_left_def by simp
qed

lemma steps_left_gstep:
  assumes "gstep k (gs s ! k) s = Some s'" "inv_gs c s" "k < length (gs s)"
  shows "steps_left c s' < steps_left c s"
proof -
  let ?g = "gs s ! k"
  from length_gs_le[OF assms(2)] have u: "0 \<le> units c" "int (length (gs s)) \<le> units c"
    by simp_all
  note L = steps_left_local[OF assms(3) _ _ _ _ _ u(1), where s' = s']
  from assms(1) show ?thesis
  proof (cases rule: gstepE)
    case (Acquire c')
    with assms(3) show ?thesis by (intro L) (simp_all add: weight_def pending_def)
  next
    case Call
    with assms(3) show ?thesis by (intro L) (simp_all add: weight_def pending_def)
  next
    case Return
    with assms(3) show ?thesis by (intro L) (simp_all add: weight_def pending_def)
  next
    case AddNil
    with assms(3) show ?thesis
      by (cases "kind ?g"; intro L; simp add: weight_def pending_def)
  next
    case (Load a)
    with assms(3) show ?thesis by (intro L) (simp_all add: weight_def pending_def)
  next
    case CAS_fail
    with assms(3) show ?thesis by (intro L) (simp_all add: weight_def pending_def)
  next
    case (Release c')
    with assms(3) show ?thesis by (intro L) (simp_all add: weight_def pending_def)
  next
    case (DeferAcquire c')
    with assms(3) show ?thesis by (intro L) (simp_all add: weight_def pending_def)
  next
    case Done
    with assms(3) show ?thesis by (intro L) (simp_all add: weight_def pending_def)
  next
    case AddInit
    define p' where "p' = (if errs s = None then Some (length (heap s)) else errs s)"
    define g' where "g' = ?g\<lparr>gpc := PAddLoad\<rparr>"
    from AddInit(3) have s': "errs s' = p'" "gs s' = (gs s)[k := g']" "mpc s' = mpc s"
      by (simp_all add: p'_def g'_def)
    have le: "sum_list (map (weight p') (gs s)) \<le> sum_list (map (weight (errs s)) (gs s))"
    proof (cases "errs s = None")
      case True
      with sum_weight_from_nil[of p' "gs s"] show ?thesis by simp
    next
      case False
      then have "p' = errs s" by (simp only: p'_def if_False)
      then show ?thesis by simp
    qed
    have w: "sum_list (map (weight p') ((gs s)[k := g']))
        = sum_list (map (weight p') (gs s)) - weight p' ?g + weight p' g'"
      by (rule sum_list_map_update_int[OF assms(3)])
    have p: "sum_list (map pending ((gs s)[k := g']))
        = sum_list (map pending (gs s)) - pending ?g + pending g'"
      by (rule sum_list_map_update_int[OF assms(3)])
    from AddInit(1) have "weight p' ?g = 7" "weight p' g' = 5" "pending ?g = pending g'"
      by (simp_all add: weight_def pending_def g'_def)
    with w p le have "sum_list (map (weight (errs s')) (gs s'))
          - sum_list (map (weight (errs s)) (gs s)) < 0"
      "sum_list (map pending (gs s')) - sum_list (map pending (gs s)) = 0"
      by (simp_all add: s')
    with steps_left_diff[of s' s c] s' show ?thesis by simp
  next
    case CAS_ok
    define p' where "p' = Some (newVal ?g)"
    define g' where "g' = ?g\<lparr>gpc := after_Add (kind ?g)\<rparr>"
    from CAS_ok(3) have s': "errs s' = p'" "gs s' = (gs s)[k := g']" "mpc s' = mpc s"
      by (simp_all add: p'_def g'_def)
    have le: "sum_list (map (weight p') (gs s))
        \<le> sum_list (map (weight (errs s)) (gs s)) + 2 * int (length (gs s))"
      by (rule sum_weight_change)
    have w: "sum_list (map (weight p') ((gs s)[k := g']))
        = sum_list (map (weight p') (gs s)) - weight p' ?g + weight p' g'"
      by (rule sum_list_map_update_int[OF assms(3)])
    have p: "sum_list (map pending ((gs s)[k := g']))
        = sum_list (map pending (gs s)) - pending ?g + pending g'"
      by (rule sum_list_map_update_int[OF assms(3)])
    from CAS_ok(1) have v: "4 \<le> weight p' ?g" "weight p' g' = 3" "pending ?g = 1"
      "pending g' = 0"
      by (cases "kind ?g"; simp add: weight_def pending_def g'_def)+
    from w le v u have "sum_list (map (weight (errs s')) (gs s'))
          - sum_list (map (weight (errs s)) (gs s)) \<le> 2 * units c - 1"
      by (simp add: s')
    moreover from p v have "sum_list (map pending (gs s')) - sum_list (map pending (gs s)) = - 1"
      by (simp add: s')
    ultimately show ?thesis
      using steps_left_diff[of s' s c] s' by simp
  qed
qed

lemma steps_left_step:
  assumes "step c t s = Some s'" "inv_gs c s"
  shows "steps_left c s' < steps_left c s"
proof (cases t)
  case Main
  with assms show ?thesis by (auto intro: steps_left_mstep)
next
  case (G k)
  with assms show ?thesis by (auto intro: steps_left_gstep split: if_splits)
qed

lemma steps_left_nonneg:
  assumes "inv_gs c s"
  shows "0 \<le> steps_left c s"
proof -
  from length_gs_le[OF assms] have u: "0 \<le> units c" "0 \<le> units c - int (length (gs s))"
    by simp_all
  have "0 \<le> sum_list (map (weight (errs s)) (gs s))"
    by (intro sum_nonneg weight_bounds)
  moreover have "0 \<le> sum_list (map pending (gs s))"
    by (intro sum_nonneg pending_bounds)
  then have "0 \<le> (2 * units c + 1) * sum_list (map pending (gs s))"
    using u(1) by simp
  moreover have "0 \<le> (case mpc s of
        MLoop i \<Rightarrow> (units c - int (length (gs s))) * (12 + 2 * units c) + 2
      | MWait \<Rightarrow> 1 | MReturned r \<Rightarrow> 0)"
    using u by (cases "mpc s") simp_all
  ultimately show ?thesis by (simp add: steps_left_def)
qed

lemma steps_left_run:
  assumes "run c sched s = Some s'" "invs maxproc c s"
  shows "int (length sched) + steps_left c s' \<le> steps_left c s"
  using assms
proof (induction sched arbitrary: s)
  case Nil
  then show ?case by simp
next
  case (Cons t ts)
  from Cons.prems(1) obtain s1 where s1: "step c t s = Some s1" and rest: "run c ts s1 = Some s'"
    by (auto split: option.splits)
  from Cons.prems(2) have "inv_gs c s" by (simp add: invs_def)
  from steps_left_step[OF s1 this] Cons.IH[OF rest invs_step[OF s1 Cons.prems(2)]]
  show ?case by simp
qed

text \<open>
  Every run of a call is finite: no schedule that the call can follow is longer than a
  bound fixed by the number of units. Together with the absence of deadlock, a call of
  \<^verbatim>\<open>Funcs.Do\<close> always returns.
\<close>

lemma runs_are_bounded:
  assumes "start maxproc c = Inr s0" "run c sched s0 = Some s"
  shows "int (length sched) \<le> units c * (12 + 2 * units c) + 2"
proof -
  from steps_left_run[OF assms(2) invs_start[OF assms(1)]]
    steps_left_nonneg[of c s] invs_reach[OF assms]
  have "int (length sched) \<le> steps_left c s0" by (simp add: invs_def)
  also from assms(1) have "steps_left c s0 \<le> units c * (12 + 2 * units c) + 2"
    by (rule start_cases) (simp_all add: steps_left_def returned_nil_def spawning_def)
  finally show ?thesis .
qed

lemma Funcs_Do_can_step_until_returned:
  assumes "start maxproc (Funcs_Do fns mp) = Inr s0" "run (Funcs_Do fns mp) sched s0 = Some s"
    "\<forall>r. mpc s \<noteq> MReturned r"
  shows "\<exists>t s'. run (Funcs_Do fns mp) (sched @ [t]) s0 = Some s'"
proof -
  have app: "run c (as @ bs) u = (case run c as u of None \<Rightarrow> None | Some u' \<Rightarrow> run c bs u')"
    for c :: "'a call" and as bs u
    by (induction as arbitrary: u) (auto split: option.splits)
  from Funcs_Do_no_deadlock[OF invs_reach[OF assms(1,2)]] assms(3)
  have "\<not> quiescent (Funcs_Do fns mp) s" by auto
  then obtain t where "step (Funcs_Do fns mp) t s \<noteq> None"
    by (auto simp: quiescent_def list_all_iff)
  then obtain s' where "step (Funcs_Do fns mp) t s = Some s'" by auto
  with assms(2) have "run (Funcs_Do fns mp) (sched @ [t]) s0 = Some s'"
    by (simp add: app)
  then show ?thesis by blast
qed

lemma sum_added_after_Add:
  "\<forall>g \<in> set xs. gpc g \<in> {PRelease, PDeferAcquire, PDone, PExit} \<Longrightarrow>
     sum_list (map added xs) = mset (filter (\<lambda>x. x \<noteq> None) (map err xs))"
  by (induction xs) (auto simp: added_def failed_def)

lemma map_err_outcomes_after_Add:
  assumes "inv_gs c s" "int (length (gs s)) = units c"
    "\<forall>g \<in> set (gs s). gpc g \<in> {PRelease, PDeferAcquire, PDone, PExit}"
  shows "map err (gs s) = outcomes c"
proof -
  have E: "err (gs s ! k) = task_of c k (int k)" if "k < length (gs s)" for k
  proof -
    from assms(1) that have "wf_g c k (gs s ! k)" by (simp add: inv_gs_def)
    moreover from assms(3) that have "gpc (gs s ! k) \<in> {PRelease, PDeferAcquire, PDone, PExit}"
      by simp
    ultimately show ?thesis by (auto simp: wf_g_def)
  qed
  from assms(2) have n: "nat (units c) = length (gs s)" by simp
  have len: "length (map err (gs s)) = length (outcomes c)"
    by (simp add: outcomes_def n)
  show ?thesis
  proof (rule nth_equalityI[OF len])
    fix i
    assume "i < length (map err (gs s))"
    then have i: "i < length (gs s)" by simp
    with E[OF i] n show "map err (gs s) ! i = outcomes c ! i"
      by (simp add: outcomes_def)
  qed
qed

text \<open>
  Where no thread can step, every goroutine has been started and has left \<^verbatim>\<open>errs.Add\<close>:
  it has ended, or (in \<^verbatim>\<open>doOne\<close>) it is blocked in its deferred acquire.
\<close>

lemma quiescent_after_Add:
  assumes "invs maxproc c s" "quiescent c s"
  shows "int (length (gs s)) = units c"
    and "\<forall>g \<in> set (gs s). gpc g \<in> {PRelease, PDeferAcquire, PDone, PExit}"
proof -
  from assms(1) have gs: "inv_gs c s" and er: "inv_errs s" and rt: "inv_ret s"
    by (simp_all add: invs_def)
  show len: "int (length (gs s)) = units c"
    by (rule length_gs_eq[OF gs quiescentD(1)[OF assms(2)]])
  have "gpc (gs s ! k) \<in> {PRelease, PDeferAcquire, PDone, PExit}" if k: "k < length (gs s)" for k
  proof (cases "kind_of c")
    case DoOp
    from Funcs_Do_no_deadlock[OF assms(1) DoOp assms(2)] obtain r where "mpc s = MReturned r"
      by blast
    with rt k show ?thesis by (simp add: inv_ret_def)
  next
    case DoOne
    let ?g = "gs s ! k"
    from gs k have wf: "wf_g c k ?g" by (simp add: inv_gs_def)
    from er k have cr: "cas_ready (heap s) (errs s) ?g" by (simp add: inv_errs_def)
    have stuck: "gstep k ?g s = None" by (rule quiescentD(2)[OF assms(2) k])
    have "gpc ?g \<noteq> PAddLoad"
    proof
      assume pc: "gpc ?g = PAddLoad"
      with cr obtain a where "errs s = Some a" by (auto simp: cas_ready_def)
      with pc stuck show False by (simp add: gstep_def)
    qed
    with gstep_None[OF stuck] wf DoOne show ?thesis by (auto simp: wf_g_def)
  qed
  then show "\<forall>g \<in> set (gs s). gpc g \<in> {PRelease, PDeferAcquire, PDone, PExit}"
    by (metis in_set_conv_nth)
qed

lemma returned_quiescent:
  assumes "inv_ret s" "mpc s = MReturned r"
  shows "quiescent c s"
proof -
  have "step c t s = None" if "t \<in> set (threads s)" for t
  proof (cases t)
    case Main
    with assms(2) show ?thesis by (simp add: mstep_def)
  next
    case (G k)
    show ?thesis
    proof (cases "k < length (gs s)")
      case True
      with assms have "gpc (gs s ! k) = PExit" by (simp add: inv_ret_def)
      with G True show ?thesis by (simp add: gstep_PExit)
    next
      case False
      with G show ?thesis by simp
    qed
  qed
  then show ?thesis by (simp add: quiescent_def list_all_iff)
qed

text \<open>
  C5. No slice that \<^verbatim>\<open>Errors.Add\<close> allocates holds a \<^verbatim>\<open>nil\<close> error. In every state of
  a call of \<^verbatim>\<open>Func.Do\<close> or \<^verbatim>\<open>Funcs.Do\<close> where no thread can step any more (every run
  reaches one, returned or not), the slice \<^verbatim>\<open>p.errs\<close> points to holds, as a multiset,
  exactly the non-nil errors the units returned: each one once, none lost, none twice,
  under every interleaving of the compare-and-swap loop; and \<^verbatim>\<open>errs.Err()\<close> on it is
  \<^verbatim>\<open>nil\<close> exactly when no unit returned an error, and otherwise combines exactly these
  errors. A state in which the call has returned is such a state, and the value
  returned is that \<^verbatim>\<open>errs.Err()\<close>.
\<close>

theorem Do_aggregates_exactly_the_errors:
  assumes "start maxproc c = Inr s0" and "run c sched s0 = Some s"
  shows "(\<forall>xs \<in> set (heap s). None \<notin> set xs)
    \<and> (quiescent c s \<longrightarrow>
          mset (List (heap s) (errs s)) = mset (filter (\<lambda>x. x \<noteq> None) (outcomes c))
          \<and> (Err (heap s) (errs s) = None \<longleftrightarrow> filter (\<lambda>x. x \<noteq> None) (outcomes c) = [])
          \<and> (\<forall>ys. Err (heap s) (errs s) = Some ys \<longrightarrow>
                mset (map Some ys) = mset (filter (\<lambda>x. x \<noteq> None) (outcomes c))
                \<and> length ys = length (filter (\<lambda>x. x \<noteq> None) (outcomes c))))
    \<and> (\<forall>r. mpc s = MReturned r \<longrightarrow>
          quiescent c s \<and> r = Err (heap s) (errs s)
          \<and> mset (List (heap s) (errs s)) = mset (filter (\<lambda>x. x \<noteq> None) (outcomes c))
          \<and> (r = None \<longleftrightarrow> filter (\<lambda>x. x \<noteq> None) (outcomes c) = [])
          \<and> (\<forall>ys. r = Some ys \<longrightarrow>
                mset (map Some ys) = mset (filter (\<lambda>x. x \<noteq> None) (outcomes c))
                \<and> length ys = length (filter (\<lambda>x. x \<noteq> None) (outcomes c))))"
proof -
  note I = invs_reach[OF assms]
  then have gs: "inv_gs c s" and er: "inv_errs s" and rt: "inv_ret s"
    by (simp_all add: invs_def)
  let ?xs = "List (heap s) (errs s)"
  let ?E = "filter (\<lambda>x. x \<noteq> None) (outcomes c)"
  let ?r = "Err (heap s) (errs s)"
  from er have 1: "\<forall>xs \<in> set (heap s). None \<notin> set xs" by (simp add: inv_errs_def)
  have 2: "mset ?xs = mset ?E \<and> (?r = None \<longleftrightarrow> ?E = [])
      \<and> (\<forall>ys. ?r = Some ys \<longrightarrow> mset (map Some ys) = mset ?E \<and> length ys = length ?E)"
    if q: "quiescent c s"
  proof -
    note A = quiescent_after_Add[OF I q]
    from er have "mset ?xs = sum_list (map added (gs s))" by (simp add: inv_errs_def)
    also have "\<dots> = mset (filter (\<lambda>x. x \<noteq> None) (map err (gs s)))"
      by (rule sum_added_after_Add[OF A(2)])
    also have "\<dots> = mset ?E" by (simp add: map_err_outcomes_after_Add[OF gs A])
    finally have m: "mset ?xs = mset ?E" .
    then have "set ?xs = set ?E" by (rule mset_eq_setD)
    then have nn: "None \<notin> set ?xs" by simp
    from m have l: "length ?xs = length ?E" by (rule mset_eq_length)
    have rc: "?r = (if ?xs = [] then None else Some (map the ?xs))"
      by (simp add: Err_eq_Combine_List Combine_no_nil(1)[OF nn])
    have a: "?r = None \<longleftrightarrow> ?E = []"
      using rc l by (auto split: if_splits)
    have b: "mset (map Some ys) = mset ?E \<and> length ys = length ?E" if "?r = Some ys" for ys
    proof -
      from that rc have "ys = map the ?xs" by (auto split: if_splits)
      with Combine_no_nil(2)[OF nn] m l show ?thesis by simp
    qed
    from m a b show ?thesis by blast
  qed
  have 3: "quiescent c s \<and> r = ?r \<and> mset ?xs = mset ?E \<and> (r = None \<longleftrightarrow> ?E = [])
      \<and> (\<forall>ys. r = Some ys \<longrightarrow> mset (map Some ys) = mset ?E \<and> length ys = length ?E)"
    if r: "mpc s = MReturned r" for r
  proof -
    from returned_quiescent[OF rt r] have q: "quiescent c s" .
    from rt r have "r = ?r" by (simp add: inv_ret_def)
    with q 2[OF q] show ?thesis by simp
  qed
  from 1 2 3 show ?thesis by blast
qed

theorem Do_aggregates_exactly_the_errors_witness:
  "start 8 Func_Do_fails_2_cap_1 = Inr (spawning 2 \<lparr>capacity = 1, queued = 0\<rparr>)
   \<and> run Func_Do_fails_2_cap_1 sched_fails_deadlock (spawning 2 \<lparr>capacity = 1, queued = 0\<rparr>)
       \<noteq> None
   \<and> quiescent Func_Do_fails_2_cap_1
        (the (run Func_Do_fails_2_cap_1 sched_fails_deadlock
           (spawning 2 \<lparr>capacity = 1, queued = 0\<rparr>)))
   \<and> mpc (the (run Func_Do_fails_2_cap_1 sched_fails_deadlock
           (spawning 2 \<lparr>capacity = 1, queued = 0\<rparr>))) = MWait
   \<and> List
        (heap (the (run Func_Do_fails_2_cap_1 sched_fails_deadlock
           (spawning 2 \<lparr>capacity = 1, queued = 0\<rparr>))))
        (errs (the (run Func_Do_fails_2_cap_1 sched_fails_deadlock
           (spawning 2 \<lparr>capacity = 1, queued = 0\<rparr>)))) = [Some 1, Some 0]
   \<and> outcomes Func_Do_fails_2_cap_1 = [Some 0, Some 1]
   \<and> mset [Some 1, Some (0 :: int)]
      = mset (filter (\<lambda>x. x \<noteq> None) (outcomes Func_Do_fails_2_cap_1))
   \<and> start 1 Func_Do_2_of_2 = Inr (spawning 2 \<lparr>capacity = 2, queued = 0\<rparr>)
   \<and> run Func_Do_2_of_2 sched_2_of_2 (spawning 2 \<lparr>capacity = 2, queued = 0\<rparr>) \<noteq> None
   \<and> mpc (the (run Func_Do_2_of_2 sched_2_of_2 (spawning 2 \<lparr>capacity = 2, queued = 0\<rparr>)))
      = MReturned (Some [1, 0])
   \<and> outcomes Func_Do_2_of_2 = [Some 0, Some 1]
   \<and> mset (map Some [1, 0 :: int])
      = mset (filter (\<lambda>x. x \<noteq> None) (outcomes Func_Do_2_of_2))"
proof -
  let ?init = "spawning 2 \<lparr>capacity = 1, queued = 0\<rparr> :: int state"
  let ?fin = "the (run Func_Do_fails_2_cap_1 sched_fails_deadlock ?init)"
  have a: "start 8 Func_Do_fails_2_cap_1 = Inr ?init"
    by (simp add: Func_Do_fails_2_cap_1_def Func_Do_start_def max_parallel_def NewSemaphore_def)
  have ne: "run Func_Do_fails_2_cap_1 sched_fails_deadlock ?init \<noteq> None"
    by code_simp
  then have b: "run Func_Do_fails_2_cap_1 sched_fails_deadlock ?init = Some ?fin"
    by (rule option.collapse[symmetric])
  have q: "quiescent Func_Do_fails_2_cap_1 ?fin"
    by code_simp
  have w: "mpc ?fin = MWait"
    by code_simp
  have l: "List (heap ?fin) (errs ?fin) = [Some 1, Some 0]"
    by code_simp
  have o: "outcomes Func_Do_fails_2_cap_1 = [Some 0, Some 1]"
    by code_simp
  from Do_aggregates_exactly_the_errors[OF a b] q
  have "mset (List (heap ?fin) (errs ?fin))
      = mset (filter (\<lambda>x. x \<noteq> None) (outcomes Func_Do_fails_2_cap_1))"
    by blast
  then have m: "mset [Some 1, Some (0 :: int)]
      = mset (filter (\<lambda>x. x \<noteq> None) (outcomes Func_Do_fails_2_cap_1))"
    by (simp only: l)
  let ?init2 = "spawning 2 \<lparr>capacity = 2, queued = 0\<rparr> :: int state"
  let ?fin2 = "the (run Func_Do_2_of_2 sched_2_of_2 ?init2)"
  have a2: "start 1 Func_Do_2_of_2 = Inr ?init2"
    by (simp add: Func_Do_2_of_2_def Func_Do_start_def max_parallel_def NewSemaphore_def)
  have ne2: "run Func_Do_2_of_2 sched_2_of_2 ?init2 \<noteq> None"
    by code_simp
  then have b2: "run Func_Do_2_of_2 sched_2_of_2 ?init2 = Some ?fin2"
    by (rule option.collapse[symmetric])
  have r2: "mpc ?fin2 = MReturned (Some [1, 0])"
    by code_simp
  have o2: "outcomes Func_Do_2_of_2 = [Some 0, Some 1]"
    by code_simp
  from Do_aggregates_exactly_the_errors[OF a2 b2] r2
  have m2: "mset (map Some [1, 0 :: int])
      = mset (filter (\<lambda>x. x \<noteq> None) (outcomes Func_Do_2_of_2))"
    by blast
  from a ne q w l o m a2 ne2 r2 o2 m2 show ?thesis by blast
qed

end
